theory Spec2Isabelle
  imports Main
begin

section \<open>Characters and strings\<close>

text \<open>
  A Python \<^verbatim>\<open>str\<close> is modelled as a \<^typ>\<open>string\<close>, one \<^typ>\<open>char\<close> per code point, so
  the strings of the model are those of code points below 256. On these the character
  classes of \<^verbatim>\<open>re\<close> and of \<^verbatim>\<open>str.lower\<close>, \<^verbatim>\<open>str.split\<close>, \<^verbatim>\<open>str.strip\<close> are the
  ones of Python 3, which classifies a \<^verbatim>\<open>str\<close> by the Unicode tables.
\<close>

definition in_range :: "nat \<Rightarrow> nat \<Rightarrow> char \<Rightarrow> bool" where
  "in_range lo hi c = (lo \<le> of_char c \<and> (of_char c :: nat) \<le> hi)"

text \<open>The regex class \<^verbatim>\<open>[a-z]\<close>.\<close>

definition is_lower_az :: "char \<Rightarrow> bool" where
  "is_lower_az c = in_range 97 122 c"

text \<open>The regex class \<^verbatim>\<open>[A-Z]\<close>.\<close>

definition is_upper_az :: "char \<Rightarrow> bool" where
  "is_upper_az c = in_range 65 90 c"

definition is_digit :: "char \<Rightarrow> bool" where
  "is_digit c = in_range 48 57 c"

text \<open>
  The alphanumeric code points from 128 to 255: the ordinal indicators, the superscript
  digits, the micro sign, the three fractions and the letters, which are all of 192 to
  255 but the multiplication and division signs.
\<close>

definition is_alnum_high :: "char \<Rightarrow> bool" where
  "is_alnum_high c =
     (in_range 170 170 c \<or> in_range 178 179 c \<or> in_range 181 181 c \<or> in_range 185 186 c
      \<or> in_range 188 190 c \<or> in_range 192 214 c \<or> in_range 216 246 c
      \<or> in_range 248 255 c)"

text \<open>The regex class \<^verbatim>\<open>\w\<close>: the alphanumeric characters and the underscore.\<close>

definition is_word :: "char \<Rightarrow> bool" where
  "is_word c =
     (is_lower_az c \<or> is_upper_az c \<or> is_digit c \<or> c = CHR ''_'' \<or> is_alnum_high c)"

text \<open>
  The regex class \<^verbatim>\<open>\s\<close>, which is also the whitespace of \<^verbatim>\<open>str.split()\<close> and
  \<^verbatim>\<open>str.strip()\<close>: tab, line feed, vertical tab, form feed, carriage return, the
  four separators 0x1C to 0x1F, the space, the next-line control 0x85 and the
  no-break space 0xA0.
\<close>

definition is_space :: "char \<Rightarrow> bool" where
  "is_space c =
     (in_range 9 13 c \<or> in_range 28 32 c \<or> in_range 133 133 c \<or> in_range 160 160 c)"

text \<open>
  The characters \<^verbatim>\<open>str.lower()\<close> changes: the letters A to Z and the upper-case
  letters 0xC0 to 0xDE, but for the multiplication sign 0xD7. The lower-case letter is
  32 code points further.
\<close>

definition is_upper :: "char \<Rightarrow> bool" where
  "is_upper c = (in_range 65 90 c \<or> in_range 192 214 c \<or> in_range 216 222 c)"

definition lower_char :: "char \<Rightarrow> char" where
  "lower_char c = (if is_upper c then char_of (of_char c + 32 :: nat) else c)"

definition lower :: "string \<Rightarrow> string" where
  "lower s = map lower_char s"

text \<open>\<^verbatim>\<open>s.startswith(p)\<close>.\<close>

fun startswith :: "string \<Rightarrow> string \<Rightarrow> bool" where
  "startswith s [] = True"
| "startswith [] (p # ps) = False"
| "startswith (c # cs) (p # ps) = (c = p \<and> startswith cs ps)"

text \<open>\<^verbatim>\<open>needle in hay\<close> on strings: the needle occurs as a contiguous run.\<close>

fun contains :: "string \<Rightarrow> string \<Rightarrow> bool" where
  "contains needle [] = (needle = [])"
| "contains needle (c # cs) = (startswith (c # cs) needle \<or> contains needle cs)"

text \<open>The double quote, which an inner string literal cannot hold.\<close>

definition dquote :: char where
  "dquote = CHR 0x22"

section \<open>Expression trees\<close>

text \<open>
  The node classes of the boolean-algebra package: \<^verbatim>\<open>Symbol\<close> (a leaf holding its
  text in \<^verbatim>\<open>obj\<close>), \<^verbatim>\<open>AND\<close> and \<^verbatim>\<open>OR\<close> (holding \<^verbatim>\<open>args\<close>) and \<^verbatim>\<open>NOT\<close> (holding one
  argument), which the source imports, and the two constants \<^verbatim>\<open>TRUE\<close> and \<^verbatim>\<open>FALSE\<close>
  of the package, which it does not.
\<close>

datatype expr =
    Symbol string
  | AND "expr list"
  | OR "expr list"
  | NOT expr
  | TRUE
  | FALSE

section \<open>Evaluator\<close>

text \<open>
  The zero-width assertion \<^verbatim>\<open>\b\<close> at position \<open>p\<close> of \<open>text\<close>: exactly one of the
  characters before and after \<open>p\<close> is a word character, the outside of the string
  counting as a non-word character.
\<close>

definition word_before :: "string \<Rightarrow> nat \<Rightarrow> bool" where
  "word_before text p = (0 < p \<and> p \<le> length text \<and> is_word (text ! (p - 1)))"

definition word_after :: "string \<Rightarrow> nat \<Rightarrow> bool" where
  "word_after text p = (p < length text \<and> is_word (text ! p))"

definition boundary :: "string \<Rightarrow> nat \<Rightarrow> bool" where
  "boundary text p = (word_before text p \<noteq> word_after text p)"

text \<open>
  \<^verbatim>\<open>re.search(r'\b' + re.escape(term) + r'\b', text)\<close>: some position of \<open>text\<close>
  holds \<open>term\<close> literally, with a word boundary on each side.
\<close>

definition match_at :: "string \<Rightarrow> string \<Rightarrow> nat \<Rightarrow> bool" where
  "match_at term text i =
     (i + length term \<le> length text \<and> take (length term) (drop i text) = term
      \<and> boundary text i \<and> boundary text (i + length term))"

definition word_search :: "string \<Rightarrow> string \<Rightarrow> bool" where
  "word_search term text = list_ex (match_at term text) [0..<Suc (length text)]"

text \<open>
  \<^verbatim>\<open>evaluate_expression(expr, text, quoted_phrases)\<close>. The phrase table is a map; the
  default \<^verbatim>\<open>None\<close> and the rebinding \<^verbatim>\<open>quoted_phrases or {}\<close> both give the empty
  map. A node that is none of \<^verbatim>\<open>Symbol\<close>, \<^verbatim>\<open>AND\<close>, \<^verbatim>\<open>OR\<close> reaches the final
  \<^verbatim>\<open>return False\<close>.
\<close>

fun evaluate_expression :: "expr \<Rightarrow> string \<Rightarrow> (string \<rightharpoonup> string) \<Rightarrow> bool" where
  "evaluate_expression (Symbol obj) text quoted_phrases =
     (let term = lower obj in
      if startswith term ''QUOTED_PHRASE_'' \<and> term \<in> dom quoted_phrases
      then contains (lower (the (quoted_phrases term))) text
      else if word_search term text then True
      else contains term text)"
| "evaluate_expression (AND args) text quoted_phrases =
     list_all (\<lambda>arg. evaluate_expression arg text quoted_phrases) args"
| "evaluate_expression (OR args) text quoted_phrases =
     list_ex (\<lambda>arg. evaluate_expression arg text quoted_phrases) args"
| "evaluate_expression (NOT arg) text quoted_phrases = False"
| "evaluate_expression TRUE text quoted_phrases = False"
| "evaluate_expression FALSE text quoted_phrases = False"

section \<open>Flattener\<close>

text \<open>
  A raw document: maps (a Python \<^verbatim>\<open>dict\<close>, kept as its items in iteration order),
  sequences and scalars. The payload of a number is never read.
\<close>

datatype json =
    JString string
  | JNumber int
  | JBool bool
  | JNull
  | JList "json list"
  | JDict "(string \<times> json) list"

text \<open>\<^verbatim>\<open>x.values()\<close> of a dict.\<close>

definition dict_values :: "(string \<times> json) list \<Rightarrow> json list" where
  "dict_values kvs = map snd kvs"

lemma size_dict_values [termination_simp]:
  "v \<in> set (dict_values kvs) \<Longrightarrow> size v < Suc (size_list (\<lambda>x. Suc (size (snd x))) kvs)"
  by (induction kvs) (fastforce simp: dict_values_def)+

text \<open>
  The inner function \<^verbatim>\<open>recurse\<close> of \<^verbatim>\<open>flatten_json\<close>; the list \<^verbatim>\<open>parts\<close> it appends
  to is passed in and returned. A value that is no string, dict or list changes
  nothing.
\<close>

fun recurse :: "json \<Rightarrow> string list \<Rightarrow> string list" where
  "recurse (JString s) parts = parts @ [s]"
| "recurse (JDict kvs) parts = foldl (\<lambda>acc v. recurse v acc) parts (dict_values kvs)"
| "recurse (JList xs) parts = foldl (\<lambda>acc i. recurse i acc) parts xs"
| "recurse (JNumber n) parts = parts"
| "recurse (JBool b) parts = parts"
| "recurse JNull parts = parts"

text \<open>\<^verbatim>\<open>sep.join(parts)\<close>.\<close>

fun join :: "string \<Rightarrow> string list \<Rightarrow> string" where
  "join sep [] = []"
| "join sep [x] = x"
| "join sep (x # y # ys) = x @ sep @ join sep (y # ys)"

definition flatten_json :: "json \<Rightarrow> string" where
  "flatten_json obj = join '' '' (recurse obj [])"

text \<open>
  The specification's reading, for comparison with \<^const>\<open>flatten_json\<close>: the string
  leaves of a document in depth-first order, maps by their value order and sequences by
  index.
\<close>

fun string_leaves :: "json \<Rightarrow> string list" where
  "string_leaves (JString s) = [s]"
| "string_leaves (JDict kvs) = concat (map string_leaves (dict_values kvs))"
| "string_leaves (JList xs) = concat (map string_leaves xs)"
| "string_leaves (JNumber n) = []"
| "string_leaves (JBool b) = []"
| "string_leaves JNull = []"

section \<open>Query parser\<close>

text \<open>The decimal text of a non-negative integer, as an f-string renders it.\<close>

definition digit_char :: "nat \<Rightarrow> char" where
  "digit_char d = char_of (48 + d)"

fun str_nat :: "nat \<Rightarrow> string" where
  "str_nat n = (if n < 10 then [digit_char n] else str_nat (n div 10) @ [digit_char (n mod 10)])"

declare str_nat.simps [simp del]

text \<open>\<^verbatim>\<open>f"QUOTED_PHRASE_{self.placeholder_counter}"\<close>.\<close>

definition placeholder_name :: "nat \<Rightarrow> string" where
  "placeholder_name n = ''QUOTED_PHRASE_'' @ str_nat n"

text \<open>
  The mutable fields of \<^verbatim>\<open>BooleanSearchParser\<close>. Its third field, \<^verbatim>\<open>algebra\<close>, is an
  object of the external boolean-algebra package and never changes; its \<^verbatim>\<open>parse\<close>
  method is a parameter of \<open>parse_query\<close> below.
\<close>

record parser =
  quoted_phrases :: "string \<rightharpoonup> string"
  placeholder_counter :: nat

text \<open>\<^verbatim>\<open>BooleanSearchParser()\<close>.\<close>

definition new_parser :: parser where
  "new_parser = \<lparr>quoted_phrases = Map.empty, placeholder_counter = 0\<rparr>"

text \<open>
  The regex \<^verbatim>\<open>"([^"]+)"\<close> tried at the start of \<open>s\<close>: a quote, the longest run of
  characters other than the quote, which must not be empty, and a closing quote. The
  result is the captured group and the text after the match.
\<close>

definition match_quoted :: "string \<Rightarrow> (string \<times> string) option" where
  "match_quoted s =
     (case s of
        [] \<Rightarrow> None
      | c # cs \<Rightarrow>
          if c \<noteq> dquote then None
          else (let body = takeWhile (\<lambda>x. x \<noteq> dquote) cs;
                    rest = dropWhile (\<lambda>x. x \<noteq> dquote) cs
                in if body = [] \<or> rest = [] then None else Some (body, tl rest)))"

lemma match_quoted_shorter:
  "match_quoted s = Some (phrase, rest) \<Longrightarrow> length rest < length s"
proof -
  assume m: "match_quoted s = Some (phrase, rest)"
  then obtain c cs where s: "s = c # cs"
    by (cases s) (simp_all add: match_quoted_def)
  from m s have "rest = tl (dropWhile (\<lambda>x. x \<noteq> dquote) cs)"
    by (simp add: match_quoted_def Let_def split: if_splits)
  then have "length rest \<le> length cs"
    using length_dropWhile_le [of "\<lambda>x. x \<noteq> dquote" cs] by simp
  with s show ?thesis by simp
qed

text \<open>The callback \<^verbatim>\<open>replace_quoted\<close>: it returns the placeholder and updates the parser.\<close>

definition replace_quoted :: "string \<Rightarrow> parser \<Rightarrow> string \<times> parser" where
  "replace_quoted phrase self =
     (let placeholder = placeholder_name (placeholder_counter self)
      in (placeholder,
          self\<lparr>quoted_phrases := (quoted_phrases self)(placeholder \<mapsto> phrase),
               placeholder_counter := placeholder_counter self + 1\<rparr>))"

text \<open>
  \<^verbatim>\<open>preprocess_query\<close>: \<^verbatim>\<open>re.sub(r'"([^"]+)"', replace_quoted, query)\<close> scans the query
  from the left, calls the callback on each match, in order, and resumes after the
  match; a character where no match starts is copied.
\<close>

function preprocess_query :: "string \<Rightarrow> parser \<Rightarrow> string \<times> parser" where
  "preprocess_query [] self = ([], self)"
| "preprocess_query (c # cs) self =
     (case match_quoted (c # cs) of
        Some (phrase, rest) \<Rightarrow>
          (case replace_quoted phrase self of
             (placeholder, self1) \<Rightarrow>
               (case preprocess_query rest self1 of
                  (out, self2) \<Rightarrow> (placeholder @ out, self2)))
      | None \<Rightarrow>
          (case preprocess_query cs self of
             (out, self1) \<Rightarrow> (c # out, self1)))"
  by pat_completeness auto
termination
  by (relation "measure (\<lambda>(q, self). length q)") (auto dest: match_quoted_shorter)

text \<open>The exception \<open>parse_query\<close> raises, with its message.\<close>

datatype error = ValueError string

text \<open>
  \<^verbatim>\<open>parse_query\<close>. The grammar parser \<^verbatim>\<open>self.algebra.parse\<close> belongs to an external
  package; it is the parameter \<open>algebra_parse\<close>, which returns the tree or the message
  of the exception it raises. The parser object is returned as the call leaves it, also
  when the call raises.
\<close>

definition parse_query ::
  "(string \<Rightarrow> string + expr) \<Rightarrow> string \<Rightarrow> parser \<Rightarrow> (error + expr) \<times> parser" where
  "parse_query algebra_parse query self =
     (let self1 = self\<lparr>quoted_phrases := Map.empty, placeholder_counter := 0\<rparr>;
          (processed_query, self2) = preprocess_query query self1
      in (case algebra_parse processed_query of
            Inr tree \<Rightarrow> (Inr tree, self2)
          | Inl e \<Rightarrow> (Inl (ValueError (''Invalid Boolean query: '' @ e)), self2)))"

text \<open>
  The parsing step of \<^verbatim>\<open>main\<close>: a fresh parser, the full parser when the query holds
  \<^verbatim>\<open>AND\<close>, \<^verbatim>\<open>OR\<close>, \<^verbatim>\<open>NOT\<close> or a quote anywhere in it, and otherwise a single
  \<^verbatim>\<open>Symbol\<close> of the lowercased query. On an error \<^verbatim>\<open>main\<close> shows it and returns.
  \<^verbatim>\<open>main\<close> reaches this step only when the query is not empty.
\<close>

definition main_parse ::
  "(string \<Rightarrow> string + expr) \<Rightarrow> string \<Rightarrow> (error + expr) \<times> parser" where
  "main_parse algebra_parse search_query =
     (let bsp = new_parser
      in if contains ''AND'' search_query \<or> contains ''OR'' search_query
            \<or> contains ''NOT'' search_query \<or> contains [dquote] search_query
         then parse_query algebra_parse search_query bsp
         else (Inr (Symbol (lower search_query)), bsp))"

text \<open>
  \<^verbatim>\<open>re.findall(r'"([^"]+)"', text)\<close>: the captured groups of the same matches, in
  order.
\<close>

function findall_quoted :: "string \<Rightarrow> string list" where
  "findall_quoted [] = []"
| "findall_quoted (c # cs) =
     (case match_quoted (c # cs) of
        Some (phrase, rest) \<Rightarrow> phrase # findall_quoted rest
      | None \<Rightarrow> findall_quoted cs)"
  by pat_completeness auto
termination
  by (relation "measure length") (auto dest: match_quoted_shorter)

text \<open>
  For comparison with \<^const>\<open>preprocess_query\<close>: the text with its quoted spans replaced,
  from the left, by the strings of a list.
\<close>

function substitute_spans :: "string \<Rightarrow> string list \<Rightarrow> string" where
  "substitute_spans [] reps = []"
| "substitute_spans (c # cs) reps =
     (case match_quoted (c # cs) of
        Some (phrase, rest) \<Rightarrow>
          (case reps of
             [] \<Rightarrow> c # cs
           | r # rs \<Rightarrow> r @ substitute_spans rest rs)
      | None \<Rightarrow> c # substitute_spans cs reps)"
  by pat_completeness auto
termination
  by (relation "measure (\<lambda>(q, reps). length q)") (auto dest: match_quoted_shorter)

section \<open>Boolean grammar\<close>

text \<open>
  The method \<^verbatim>\<open>BooleanAlgebra.parse\<close>, which \<open>parse_query\<close> calls, belongs to an
  external package whose code the repository does not hold. Every definition of this
  section is modelled from section 4.3 of the specification: the string is parsed as
  a boolean expression over the infix and prefix operators \<^verbatim>\<open>AND\<close>, \<^verbatim>\<open>OR\<close>, \<^verbatim>\<open>NOT\<close>
  and parenthesized grouping, any other token becomes a term leaf holding the token's
  text, and a syntax error (unbalanced parentheses, a dangling operator, an empty
  expression) is a failure with a descriptive message. The specification names no
  other operator spelling, no constant and no precedence; the model reads the three
  operators in upper case only, never yields \<^verbatim>\<open>TRUE\<close> or \<^verbatim>\<open>FALSE\<close>, and binds \<^verbatim>\<open>NOT\<close>
  tighter than \<^verbatim>\<open>AND\<close> and \<^verbatim>\<open>AND\<close> tighter than \<^verbatim>\<open>OR\<close>.
\<close>

text \<open>Modelled from the spec: the tokens of the grammar of \<^verbatim>\<open>BooleanAlgebra.parse\<close>.\<close>

datatype token = TAnd | TOr | TNot | TLpar | TRpar | TSym string

text \<open>
  Modelled from the spec: the token of one word of the query to
  \<^verbatim>\<open>BooleanAlgebra.parse\<close>; a word that is no operator is a term.
\<close>

definition word_token :: "string \<Rightarrow> token list" where
  "word_token w =
     (if w = [] then []
      else if w = ''AND'' then [TAnd]
      else if w = ''OR'' then [TOr]
      else if w = ''NOT'' then [TNot]
      else [TSym w])"

text \<open>
  Modelled from the spec: the tokenizer of \<^verbatim>\<open>BooleanAlgebra.parse\<close>. Words are
  separated by whitespace and by parentheses, and each parenthesis is a token. \<open>cur\<close>
  is the word being read.
\<close>

fun tokenize_from :: "string \<Rightarrow> string \<Rightarrow> token list" where
  "tokenize_from cur [] = word_token cur"
| "tokenize_from cur (c # cs) =
     (if is_space c then word_token cur @ tokenize_from [] cs
      else if c = CHR ''('' then word_token cur @ TLpar # tokenize_from [] cs
      else if c = CHR '')'' then word_token cur @ TRpar # tokenize_from [] cs
      else tokenize_from (cur @ [c]) cs)"

text \<open>Modelled from the spec: the tokens of a whole query to \<^verbatim>\<open>BooleanAlgebra.parse\<close>.\<close>

definition tokenize :: "string \<Rightarrow> token list" where
  "tokenize s = tokenize_from [] s"

text \<open>
  Modelled from the spec: the state of \<^verbatim>\<open>BooleanAlgebra.parse\<close> inside one pair of
  parentheses (or outside all of them): the alternatives of the disjunction that are
  complete, the operands of the conjunction being read, the number of \<^verbatim>\<open>NOT\<close> read
  before the next operand, and whether an operand must come next.
\<close>

record frame =
  ors :: "expr list"
  ands :: "expr list"
  nots :: nat
  need :: bool

text \<open>
  Modelled from the spec: the state in which \<^verbatim>\<open>BooleanAlgebra.parse\<close> starts an
  expression, at the start of the input and after an opening parenthesis.
\<close>

definition new_frame :: frame where
  "new_frame = \<lparr>ors = [], ands = [], nots = 0, need = True\<rparr>"

text \<open>
  Modelled from the spec: \<^verbatim>\<open>BooleanAlgebra.parse\<close> has read nothing of the expression
  yet, so that a missing operand is an empty expression and not a dangling operator.
\<close>

definition fresh :: "frame \<Rightarrow> bool" where
  "fresh f = (ors f = [] \<and> ands f = [] \<and> nots f = 0)"

text \<open>
  Modelled from the spec: the node \<^verbatim>\<open>BooleanAlgebra.parse\<close> builds for a conjunction
  or a disjunction; a single operand stands for itself, so that \<^verbatim>\<open>AND\<close> and \<^verbatim>\<open>OR\<close>
  nodes have at least two children.
\<close>

fun mk_node :: "(expr list \<Rightarrow> expr) \<Rightarrow> expr list \<Rightarrow> expr" where
  "mk_node C [x] = x"
| "mk_node C xs = C xs"

text \<open>
  Modelled from the spec: the tree \<^verbatim>\<open>BooleanAlgebra.parse\<close> builds for a complete
  expression, the disjunction of its conjunctions.
\<close>

definition close_frame :: "frame \<Rightarrow> expr" where
  "close_frame f = mk_node OR (ors f @ [mk_node AND (ands f)])"

text \<open>
  Modelled from the spec: an operand read by \<^verbatim>\<open>BooleanAlgebra.parse\<close> joins the
  conjunction being read, under the pending negations.
\<close>

definition operand :: "expr \<Rightarrow> frame \<Rightarrow> frame" where
  "operand e f = f\<lparr>ands := ands f @ [(NOT ^^ nots f) e], nots := 0, need := False\<rparr>"

text \<open>
  Modelled from the spec: one token read by \<^verbatim>\<open>BooleanAlgebra.parse\<close>. The state is the
  frame being read and the frames of the enclosing parentheses. A term, a \<^verbatim>\<open>NOT\<close> and
  an opening parenthesis are accepted where an operand must come; \<^verbatim>\<open>AND\<close>, \<^verbatim>\<open>OR\<close> and
  a closing parenthesis are accepted after an operand.
\<close>

fun step :: "token \<Rightarrow> frame \<times> frame list \<Rightarrow> string + frame \<times> frame list" where
  "step (TSym s) (f, outer) =
     (if need f then Inr (operand (Symbol s) f, outer) else Inl ''missing operator'')"
| "step TNot (f, outer) =
     (if need f then Inr (f\<lparr>nots := nots f + 1\<rparr>, outer) else Inl ''missing operator'')"
| "step TLpar (f, outer) =
     (if need f then Inr (new_frame, f # outer) else Inl ''missing operator'')"
| "step TAnd (f, outer) =
     (if need f then Inl ''dangling operator'' else Inr (f\<lparr>need := True\<rparr>, outer))"
| "step TOr (f, outer) =
     (if need f then Inl ''dangling operator''
      else Inr (f\<lparr>ors := ors f @ [mk_node AND (ands f)], ands := [], need := True\<rparr>, outer))"
| "step TRpar (f, outer) =
     (if need f then Inl (if fresh f then ''empty expression'' else ''dangling operator'')
      else (case outer of
              [] \<Rightarrow> Inl ''unbalanced parentheses''
            | g # gs \<Rightarrow> Inr (operand (close_frame f) g, gs)))"

text \<open>Modelled from the spec: the tokens read by \<^verbatim>\<open>BooleanAlgebra.parse\<close>, in order.\<close>

fun run :: "token list \<Rightarrow> frame \<times> frame list \<Rightarrow> string + frame \<times> frame list" where
  "run [] st = Inr st"
| "run (t # ts) st = (case step t st of Inl e \<Rightarrow> Inl e | Inr st' \<Rightarrow> run ts st')"

text \<open>
  Modelled from the spec: the end of the input of \<^verbatim>\<open>BooleanAlgebra.parse\<close>. No
  parenthesis may be open and no operand may be missing.
\<close>

fun finish :: "frame \<times> frame list \<Rightarrow> string + expr" where
  "finish (f, outer) =
     (if outer \<noteq> [] then Inl ''unbalanced parentheses''
      else if need f then Inl (if fresh f then ''empty expression'' else ''dangling operator'')
      else Inr (close_frame f))"

text \<open>
  Modelled from the spec: \<^verbatim>\<open>BooleanAlgebra.parse\<close>, which returns the expression tree
  or the message of the syntax error it raises.
\<close>

definition boolean_algebra_parse :: "string \<Rightarrow> string + expr" where
  "boolean_algebra_parse s =
     (case run (tokenize s) (new_frame, []) of Inl e \<Rightarrow> Inl e | Inr st \<Rightarrow> finish st)"

text \<open>
  The syntax errors the specification names, on the tokens of a query. Two tokens are
  adjacent when one follows the other directly.
\<close>

fun adjacent :: "(token \<Rightarrow> token \<Rightarrow> bool) \<Rightarrow> token list \<Rightarrow> bool" where
  "adjacent P (a # b # ts) = (P a b \<or> adjacent P (b # ts))"
| "adjacent P [a] = False"
| "adjacent P [] = False"

definition is_binary :: "token \<Rightarrow> bool" where
  "is_binary t = (t = TAnd \<or> t = TOr)"

definition is_operator :: "token \<Rightarrow> bool" where
  "is_operator t = (is_binary t \<or> t = TNot)"

text \<open>An empty expression: no token at all, or nothing between two parentheses.\<close>

definition empty_expression :: "token list \<Rightarrow> bool" where
  "empty_expression ts = (ts = [] \<or> adjacent (\<lambda>a b. a = TLpar \<and> b = TRpar) ts)"

text \<open>
  A dangling operator: an operator with no operand to its right (it is the last
  token, or a closing parenthesis or a binary operator follows it), or a binary
  operator with no operand to its left (it is the first token or follows an opening
  parenthesis).
\<close>

definition dangling_operator :: "token list \<Rightarrow> bool" where
  "dangling_operator ts =
     (adjacent (\<lambda>a b. (is_operator a \<and> (b = TRpar \<or> is_binary b)) \<or> (a = TLpar \<and> is_binary b)) ts
      \<or> (ts \<noteq> [] \<and> (is_operator (last ts) \<or> is_binary (hd ts))))"

text \<open>
  The parentheses open after a list of tokens, from \<open>d\<close> open ones; there is none when
  a closing parenthesis has no opening one.
\<close>

fun depth_after :: "nat \<Rightarrow> token list \<Rightarrow> nat option" where
  "depth_after d [] = Some d"
| "depth_after d (TLpar # ts) = depth_after (Suc d) ts"
| "depth_after d (TRpar # ts) = (case d of 0 \<Rightarrow> None | Suc d' \<Rightarrow> depth_after d' ts)"
| "depth_after d (TAnd # ts) = depth_after d ts"
| "depth_after d (TOr # ts) = depth_after d ts"
| "depth_after d (TNot # ts) = depth_after d ts"
| "depth_after d (TSym s # ts) = depth_after d ts"

definition unbalanced :: "token list \<Rightarrow> bool" where
  "unbalanced ts = (depth_after 0 ts \<noteq> Some 0)"

text \<open>
  The well-formed boolean expressions, as lists of tokens: a term, a negation, a
  conjunction, a disjunction, a parenthesized expression.
\<close>

inductive wellformed :: "token list \<Rightarrow> bool" where
  leaf: "wellformed [TSym s]"
| neg: "wellformed ts \<Longrightarrow> wellformed (TNot # ts)"
| conj: "wellformed a \<Longrightarrow> wellformed b \<Longrightarrow> wellformed (a @ TAnd # b)"
| disj: "wellformed a \<Longrightarrow> wellformed b \<Longrightarrow> wellformed (a @ TOr # b)"
| paren: "wellformed ts \<Longrightarrow> wellformed (TLpar # ts @ [TRpar])"

text \<open>A token that starts an operand, and a token after which an operand must come.\<close>

definition starts_operand :: "token \<Rightarrow> bool" where
  "starts_operand t = (case t of TSym s \<Rightarrow> True | TNot \<Rightarrow> True | TLpar \<Rightarrow> True | _ \<Rightarrow> False)"

definition needs_after :: "token \<Rightarrow> bool" where
  "needs_after t = (case t of TSym s \<Rightarrow> False | TRpar \<Rightarrow> False | _ \<Rightarrow> True)"

text \<open>
  Two notions for the proofs about the grammar. A list of tokens has a hole when any
  well-formed expression appended to it gives a well-formed expression.
\<close>

definition hole :: "token list \<Rightarrow> bool" where
  "hole p = (\<forall>w. wellformed w \<longrightarrow> wellformed (p @ w))"

text \<open>
  The tokens read so far, seen from a state of the parser: one list with a hole for each
  open parenthesis, then the tokens of the frame being read, which have a hole when an
  operand must come and are a well-formed expression otherwise.
\<close>

definition consumed :: "token list \<Rightarrow> frame \<times> frame list \<Rightarrow> bool" where
  "consumed p st =
     (\<exists>os cur. p = concat (map (\<lambda>q. q @ [TLpar]) os) @ cur
        \<and> length os = length (snd st)
        \<and> (\<forall>q \<in> set os. hole q)
        \<and> (if need (fst st) then hole cur else wellformed cur))"

text \<open>The tokens the grammar reads for a query: those of the query after \<open>preprocess_query\<close>.\<close>

definition query_tokens :: "string \<Rightarrow> token list" where
  "query_tokens query = tokenize (fst (preprocess_query query new_parser))"

section \<open>Normalizer\<close>

text \<open>
  Step 1, \<^verbatim>\<open>re.sub(r'([a-z])([A-Z])', r'\1 \2', text)\<close>: scanning from the left, a
  lower-case letter followed by an upper-case letter gets a space between the two, and
  the scan resumes after the pair.
\<close>

fun camel_split :: "string \<Rightarrow> string" where
  "camel_split (a # b # rest) =
     (if is_lower_az a \<and> is_upper_az b then a # CHR '' '' # b # camel_split rest
      else a # camel_split (b # rest))"
| "camel_split [a] = [a]"
| "camel_split [] = []"

text \<open>
  Step 2, first substitution: \<^verbatim>\<open>(?<![\w@])\.net(?![\w.])\<close> at the start of \<open>s\<close>, where
  \<open>prev\<close> is the character of the text before \<open>s\<close>, if any.
\<close>

definition dotnet_here :: "char option \<Rightarrow> string \<Rightarrow> bool" where
  "dotnet_here prev s =
     (startswith s ''.net''
      \<and> (case prev of None \<Rightarrow> True | Some p \<Rightarrow> \<not> is_word p \<and> p \<noteq> CHR ''@'')
      \<and> (case drop 4 s of [] \<Rightarrow> True | d # ds \<Rightarrow> \<not> is_word d \<and> d \<noteq> CHR ''.''))"

fun repair_dotnet :: "char option \<Rightarrow> string \<Rightarrow> string" where
  "repair_dotnet prev [] = []"
| "repair_dotnet prev (c # cs) =
     (if dotnet_here prev (c # cs)
      then '' dotnet '' @ repair_dotnet (Some (CHR ''t'')) (drop 3 cs)
      else c # repair_dotnet (Some c) cs)"

text \<open>The longest run of non-whitespace characters at the start of a string, and the rest.\<close>

definition nonspace_run :: "string \<Rightarrow> string" where
  "nonspace_run s = takeWhile (\<lambda>c. \<not> is_space c) s"

definition after_run :: "string \<Rightarrow> string" where
  "after_run s = dropWhile (\<lambda>c. \<not> is_space c) s"

lemma after_run_shorter:
  "\<not> is_space c \<Longrightarrow> length (after_run (c # cs)) < Suc (length cs)"
  using length_dropWhile_le [of "\<lambda>c. \<not> is_space c" cs] by (simp add: after_run_def)

text \<open>
  Step 2, second substitution: \<^verbatim>\<open>\S+@\S+\<close> matches at the start of \<open>s\<close> when the run
  of non-whitespace there holds an \<^verbatim>\<open>@\<close> that is neither its first nor its last
  character; the match is then the whole run, which is deleted.
\<close>

definition email_here :: "string \<Rightarrow> bool" where
  "email_here s = (CHR ''@'' \<in> set (butlast (tl (nonspace_run s))))"

lemma email_here_nonspace: "email_here (c # cs) \<Longrightarrow> \<not> is_space c"
  by (auto simp: email_here_def nonspace_run_def)

function strip_emails :: "string \<Rightarrow> string" where
  "strip_emails [] = []"
| "strip_emails (c # cs) =
     (if email_here (c # cs) then strip_emails (after_run (c # cs))
      else c # strip_emails cs)"
  by pat_completeness auto
termination
  by (relation "measure length") (auto dest!: email_here_nonspace intro: after_run_shorter)

text \<open>
  Step 2, third substitution: \<^verbatim>\<open>https?://\S+|www\.\S+\<close> matches at the start of \<open>s\<close>
  when \<open>s\<close> starts with one of the three prefixes and a non-whitespace character
  follows it; the match is the whole run of non-whitespace, which is deleted.
\<close>

definition nonspace_next :: "string \<Rightarrow> bool" where
  "nonspace_next s = (case s of [] \<Rightarrow> False | d # ds \<Rightarrow> \<not> is_space d)"

definition url_here :: "string \<Rightarrow> bool" where
  "url_here s =
     ((startswith s ''https://'' \<and> nonspace_next (drop 8 s))
      \<or> (startswith s ''http://'' \<and> nonspace_next (drop 7 s))
      \<or> (startswith s ''www.'' \<and> nonspace_next (drop 4 s)))"

lemma url_here_nonspace: "url_here (c # cs) \<Longrightarrow> \<not> is_space c"
  by (auto simp: url_here_def is_space_def in_range_def)

function strip_urls :: "string \<Rightarrow> string" where
  "strip_urls [] = []"
| "strip_urls (c # cs) =
     (if url_here (c # cs) then strip_urls (after_run (c # cs))
      else c # strip_urls cs)"
  by pat_completeness auto
termination
  by (relation "measure length") (auto dest!: url_here_nonspace intro: after_run_shorter)

text \<open>
  Step 3: the quoted phrases of the text are found once, and each is appended after a
  space with its spaces removed.
\<close>

definition append_phrases :: "string \<Rightarrow> string" where
  "append_phrases text =
     foldl (\<lambda>t phrase. t @ '' '' @ filter (\<lambda>c. c \<noteq> CHR '' '') phrase) text (findall_quoted text)"

text \<open>
  Step 4: \<^verbatim>\<open>text.replace('"', '')\<close>, then \<^verbatim>\<open>re.sub(r'[^\w\s]', ' ', text)\<close>.
\<close>

definition strip_symbols :: "string \<Rightarrow> string" where
  "strip_symbols text =
     map (\<lambda>c. if is_word c \<or> is_space c then c else CHR '' '') (filter (\<lambda>c. c \<noteq> dquote) text)"

text \<open>
  \<^verbatim>\<open>text.split()\<close>: the maximal runs of non-whitespace, in order. \<open>cur\<close> is the run
  being read.
\<close>

fun split_from :: "string \<Rightarrow> string \<Rightarrow> string list" where
  "split_from cur [] = (if cur = [] then [] else [cur])"
| "split_from cur (c # cs) =
     (if is_space c then (if cur = [] then split_from [] cs else cur # split_from [] cs)
      else split_from (cur @ [c]) cs)"

definition split_ws :: "string \<Rightarrow> string list" where
  "split_ws s = split_from [] s"

text \<open>Step 5a: the loop over \<^verbatim>\<open>range(len(words) - 1)\<close>, which is empty for no word.\<close>

definition inject_bigrams :: "string \<Rightarrow> string list \<Rightarrow> string" where
  "inject_bigrams text words =
     foldl (\<lambda>t i. t @ '' '' @ words ! i @ words ! (i + 1)) text [0 ..< length words - 1]"

text \<open>Step 5b: the loop over the words.\<close>

definition inject_halves :: "string \<Rightarrow> string list \<Rightarrow> string" where
  "inject_halves text words =
     foldl (\<lambda>t tok. if 8 < length tok
                     then (let mid = length tok div 2
                           in t @ '' '' @ take mid tok @ '' '' @ drop mid tok)
                     else t) text words"

text \<open>Step 6: \<^verbatim>\<open>re.sub(r'\s+', ' ', text)\<close> and \<^verbatim>\<open>.strip()\<close>.\<close>

function collapse_ws :: "string \<Rightarrow> string" where
  "collapse_ws [] = []"
| "collapse_ws (c # cs) =
     (if is_space c then CHR '' '' # collapse_ws (dropWhile is_space cs)
      else c # collapse_ws cs)"
  by pat_completeness auto
termination
  by (relation "measure length") (auto simp: le_imp_less_Suc length_dropWhile_le)

definition strip :: "string \<Rightarrow> string" where
  "strip s = rev (dropWhile is_space (rev (dropWhile is_space s)))"

text \<open>Steps 1 to 4 of \<^verbatim>\<open>normalize\<close>: the text that is tokenized.\<close>

definition clean :: "string \<Rightarrow> string" where
  "clean text =
     strip_symbols (append_phrases (strip_urls (strip_emails
       (repair_dotnet None (lower (camel_split text))))))"

text \<open>The list \<^verbatim>\<open>words\<close> of \<^verbatim>\<open>normalize\<close>.\<close>

definition base_words :: "string \<Rightarrow> string list" where
  "base_words text = split_ws (clean text)"

definition normalize_text :: "string \<Rightarrow> string" where
  "normalize_text text =
     (let text1 = clean text;
          words = split_ws text1;
          text2 = inject_bigrams text1 words;
          text3 = inject_halves text2 words
      in strip (collapse_ws text3))"

section \<open>Properties of the string helpers\<close>

lemma startswith_iff: "startswith s p \<longleftrightarrow> (\<exists>r. s = p @ r)"
  by (induction s p rule: startswith.induct) auto

lemma contains_iff: "contains needle hay \<longleftrightarrow> (\<exists>l r. hay = l @ needle @ r)"
proof (induction hay)
  case Nil
  then show ?case by auto
next
  case (Cons c cs)
  show ?case
  proof
    assume "contains needle (c # cs)"
    then consider "startswith (c # cs) needle" | "contains needle cs" by auto
    then show "\<exists>l r. c # cs = l @ needle @ r"
    proof cases
      case 1
      then obtain r where "c # cs = needle @ r" by (auto simp: startswith_iff)
      then have "c # cs = [] @ needle @ r" by simp
      then show ?thesis by blast
    next
      case 2
      with Cons obtain l r where "cs = l @ needle @ r" by auto
      then have "c # cs = (c # l) @ needle @ r" by simp
      then show ?thesis by blast
    qed
  next
    assume "\<exists>l r. c # cs = l @ needle @ r"
    then obtain l r where h: "c # cs = l @ needle @ r" by auto
    show "contains needle (c # cs)"
    proof (cases l)
      case Nil
      with h have "startswith (c # cs) needle" by (auto simp: startswith_iff)
      then show ?thesis by simp
    next
      case (Cons a l')
      with h have "cs = l' @ needle @ r" by simp
      with Cons.IH have "contains needle cs" by blast
      then show ?thesis by simp
    qed
  qed
qed

section \<open>Properties of the evaluator\<close>

text \<open>
  The word-boundary search in terms of the text around the match: the document is
  \<open>pre @ term @ post\<close>, and at each end of the match exactly one of the two
  neighbouring characters is a word character.
\<close>

lemma word_before_append:
  "word_before (xs @ ys) (length xs) = (xs \<noteq> [] \<and> is_word (last xs))"
  by (cases xs rule: rev_cases) (simp_all add: word_before_def nth_append)

lemma word_after_append:
  "word_after (xs @ ys) (length xs) = (ys \<noteq> [] \<and> is_word (hd ys))"
  by (cases ys) (simp_all add: word_after_def nth_append)

lemma boundary_append:
  "boundary (xs @ ys) (length xs)
     = ((xs \<noteq> [] \<and> is_word (last xs)) \<noteq> (ys \<noteq> [] \<and> is_word (hd ys)))"
  by (simp only: boundary_def word_before_append word_after_append)

lemma match_at_iff:
  "match_at term doc i \<longleftrightarrow>
     (\<exists>pre post. doc = pre @ term @ post \<and> length pre = i
        \<and> ((pre \<noteq> [] \<and> is_word (last pre)) \<noteq> (term @ post \<noteq> [] \<and> is_word (hd (term @ post))))
        \<and> ((pre @ term \<noteq> [] \<and> is_word (last (pre @ term))) \<noteq> (post \<noteq> [] \<and> is_word (hd post))))"
proof
  assume m: "match_at term doc i"
  let ?pre = "take i doc"
  let ?post = "drop (i + length term) doc"
  from m have le: "i + length term \<le> length doc"
    and t: "take (length term) (drop i doc) = term"
    and b1: "boundary doc i" and b2: "boundary doc (i + length term)"
    by (simp_all add: match_at_def)
  have "drop i doc = take (length term) (drop i doc) @ drop (length term) (drop i doc)"
    by (simp only: append_take_drop_id)
  then have "drop i doc = term @ ?post" by (simp only: t drop_drop add.commute)
  then have "?pre @ drop i doc = ?pre @ term @ ?post" by (rule arg_cong)
  then have d: "doc = ?pre @ term @ ?post" by (simp only: append_take_drop_id)
  from le have l: "length ?pre = i" by simp
  have l2: "length (?pre @ term) = i + length term" using l by simp
  from b1 have c1: "(?pre \<noteq> [] \<and> is_word (last ?pre))
      \<noteq> (term @ ?post \<noteq> [] \<and> is_word (hd (term @ ?post)))"
    using boundary_append [of ?pre "term @ ?post"] d l by simp
  from b2 have c2: "(?pre @ term \<noteq> [] \<and> is_word (last (?pre @ term)))
      \<noteq> (?post \<noteq> [] \<and> is_word (hd ?post))"
    using boundary_append [of "?pre @ term" ?post] d l2 by simp
  from d l c1 c2 show "\<exists>pre post. doc = pre @ term @ post \<and> length pre = i
        \<and> ((pre \<noteq> [] \<and> is_word (last pre)) \<noteq> (term @ post \<noteq> [] \<and> is_word (hd (term @ post))))
        \<and> ((pre @ term \<noteq> [] \<and> is_word (last (pre @ term))) \<noteq> (post \<noteq> [] \<and> is_word (hd post)))"
    by blast
next
  assume "\<exists>pre post. doc = pre @ term @ post \<and> length pre = i
        \<and> ((pre \<noteq> [] \<and> is_word (last pre)) \<noteq> (term @ post \<noteq> [] \<and> is_word (hd (term @ post))))
        \<and> ((pre @ term \<noteq> [] \<and> is_word (last (pre @ term))) \<noteq> (post \<noteq> [] \<and> is_word (hd post)))"
  then obtain pre post where d: "doc = pre @ term @ post" and l: "length pre = i"
    and c1: "(pre \<noteq> [] \<and> is_word (last pre)) \<noteq> (term @ post \<noteq> [] \<and> is_word (hd (term @ post)))"
    and c2: "(pre @ term \<noteq> [] \<and> is_word (last (pre @ term))) \<noteq> (post \<noteq> [] \<and> is_word (hd post))"
    by blast
  have b1: "boundary doc i"
    using boundary_append [of pre "term @ post"] c1 d l by simp
  have "boundary ((pre @ term) @ post) (length (pre @ term))"
    unfolding boundary_append by (rule c2)
  then have b2: "boundary doc (i + length term)" using d l by simp
  from d l b1 b2 show "match_at term doc i" by (simp add: match_at_def)
qed

lemma word_search_iff:
  "word_search term doc \<longleftrightarrow>
     (\<exists>pre post. doc = pre @ term @ post
        \<and> ((pre \<noteq> [] \<and> is_word (last pre)) \<noteq> (term @ post \<noteq> [] \<and> is_word (hd (term @ post))))
        \<and> ((pre @ term \<noteq> [] \<and> is_word (last (pre @ term))) \<noteq> (post \<noteq> [] \<and> is_word (hd post))))"
proof
  assume "word_search term doc"
  then obtain i where "match_at term doc i"
    by (auto simp: word_search_def list_ex_iff)
  then show "\<exists>pre post. doc = pre @ term @ post
        \<and> ((pre \<noteq> [] \<and> is_word (last pre)) \<noteq> (term @ post \<noteq> [] \<and> is_word (hd (term @ post))))
        \<and> ((pre @ term \<noteq> [] \<and> is_word (last (pre @ term))) \<noteq> (post \<noteq> [] \<and> is_word (hd post)))"
    unfolding match_at_iff by blast
next
  assume "\<exists>pre post. doc = pre @ term @ post
        \<and> ((pre \<noteq> [] \<and> is_word (last pre)) \<noteq> (term @ post \<noteq> [] \<and> is_word (hd (term @ post))))
        \<and> ((pre @ term \<noteq> [] \<and> is_word (last (pre @ term))) \<noteq> (post \<noteq> [] \<and> is_word (hd post)))"
  then obtain pre post where d: "doc = pre @ term @ post"
    and c: "(pre \<noteq> [] \<and> is_word (last pre)) \<noteq> (term @ post \<noteq> [] \<and> is_word (hd (term @ post)))"
       "(pre @ term \<noteq> [] \<and> is_word (last (pre @ term))) \<noteq> (post \<noteq> [] \<and> is_word (hd post))"
    by blast
  then have "match_at term doc (length pre)" unfolding match_at_iff by blast
  moreover from d have "length pre \<in> set [0 ..< Suc (length doc)]" by simp
  ultimately show "word_search term doc"
    unfolding word_search_def list_ex_iff by blast
qed

lemma word_search_contains: "word_search term doc \<Longrightarrow> contains term doc"
  unfolding word_search_iff contains_iff by blast

lemma lower_char_not_Q: "lower_char c \<noteq> CHR ''Q''"
proof (cases "is_upper c")
  case True
  then have "of_char (lower_char c) = (of_char c + 32 :: nat)"
    by (auto simp: lower_char_def is_upper_def in_range_def)
  with True show ?thesis by (auto simp: is_upper_def in_range_def)
next
  case False
  then show ?thesis by (auto simp: lower_char_def is_upper_def in_range_def)
qed

text \<open>
  A lowercased term never starts with the upper-case placeholder prefix, so the first
  branch of the \<^verbatim>\<open>Symbol\<close> case is never taken.
\<close>

lemma lower_no_placeholder: "\<not> startswith (lower s) ''QUOTED_PHRASE_''"
  by (cases s) (simp_all add: lower_def lower_char_not_Q)

text \<open>Hence the phrase table never changes a verdict.\<close>

lemma phrase_table_ignored:
  "evaluate_expression e s0 phrases = evaluate_expression e s0 Map.empty"
  by (induction e) (simp_all add: Let_def lower_no_placeholder list_all_iff list_ex_iff)

text \<open>
  C1, at the input where the code departs from it: the term is the placeholder
  \<^verbatim>\<open>QUOTED_PHRASE_0\<close>, the phrase table records \<^verbatim>\<open>Machine Learning\<close> for it, and the
  document text is \<^verbatim>\<open>machine learning\<close>. The lowercased phrase is a substring of the
  text, and the evaluator answers false: it lowercases the term before it tests for the
  upper-case prefix and before it looks the term up.
\<close>

theorem placeholder_term_unmatched:
  "evaluate_expression (Symbol ''QUOTED_PHRASE_0'') ''machine learning''
     [''QUOTED_PHRASE_0'' \<mapsto> ''Machine Learning''] = False
   \<and> contains (lower ''Machine Learning'') ''machine learning''"
  by code_simp

text \<open>
  C2, at the input where the code departs from it: the child \<^verbatim>\<open>python\<close> evaluates to
  false on the text \<^verbatim>\<open>java\<close>, and so does its negation, which reaches the final
  \<^verbatim>\<open>return False\<close>.
\<close>

theorem not_node_false:
  "evaluate_expression (NOT (Symbol ''python'')) ''java'' Map.empty = False
   \<and> evaluate_expression (Symbol ''python'') ''java'' Map.empty = False"
  by code_simp

text \<open>
  C4: a term that is not a placeholder recorded in the phrase table is true when the
  word-boundary search of its lowercased text succeeds, and otherwise exactly when the
  lowercased text is a substring of the document text. The word-boundary search
  succeeds exactly when the document is \<open>pre @ t @ post\<close> with a word boundary at each
  end of \<open>t\<close>, and the substring test exactly when the document is \<open>pre @ t @ post\<close>.
  On the text \<^verbatim>\<open>i know java programming\<close> the term \<^verbatim>\<open>Java\<close> passes the word-boundary
  search; the term \<^verbatim>\<open>program\<close> fails it, passes the substring test, and evaluates to
  true. A letter above code 127 is a word character: \<^verbatim>\<open>caf\<close> fails the word-boundary
  search in \<^verbatim>\<open>caf\<close> followed by e-acute, and matches as a substring.
\<close>

theorem term_fallback_order:
  "(\<not> (startswith obj ''QUOTED_PHRASE_'' \<and> obj \<in> dom phrases) \<longrightarrow>
      evaluate_expression (Symbol obj) doc phrases =
        (if word_search (lower obj) doc then True else contains (lower obj) doc))
   \<and> (word_search t doc \<longleftrightarrow>
        (\<exists>pre post. doc = pre @ t @ post
           \<and> ((pre \<noteq> [] \<and> is_word (last pre))
                 \<noteq> (t @ post \<noteq> [] \<and> is_word (hd (t @ post))))
           \<and> ((pre @ t \<noteq> [] \<and> is_word (last (pre @ t)))
                 \<noteq> (post \<noteq> [] \<and> is_word (hd post)))))
   \<and> (contains t doc \<longleftrightarrow> (\<exists>pre post. doc = pre @ t @ post))
   \<and> word_search ''java'' ''i know java programming''
   \<and> evaluate_expression (Symbol ''Java'') ''i know java programming'' Map.empty
   \<and> \<not> word_search ''program'' ''i know java programming''
   \<and> contains ''program'' ''i know java programming''
   \<and> evaluate_expression (Symbol ''program'') ''i know java programming'' Map.empty
   \<and> \<not> word_search ''caf'' (''caf'' @ [CHR 0xE9])
   \<and> evaluate_expression (Symbol ''caf'') (''caf'' @ [CHR 0xE9]) Map.empty"
proof -
  have a1: "evaluate_expression (Symbol obj) doc phrases =
        (if word_search (lower obj) doc then True else contains (lower obj) doc)"
    by (simp add: Let_def lower_no_placeholder)
  note a2 = word_search_iff [of t doc]
  note a3 = contains_iff [of t doc]
  have a4: "word_search ''java'' ''i know java programming''" by code_simp
  have a5: "evaluate_expression (Symbol ''Java'') ''i know java programming'' Map.empty"
    by code_simp
  have a6: "\<not> word_search ''program'' ''i know java programming''" by code_simp
  have a7: "contains ''program'' ''i know java programming''" by code_simp
  have a8: "evaluate_expression (Symbol ''program'') ''i know java programming'' Map.empty"
    by code_simp
  have a9: "\<not> word_search ''caf'' (''caf'' @ [CHR 0xE9])" by code_simp
  have a10: "evaluate_expression (Symbol ''caf'') (''caf'' @ [CHR 0xE9]) Map.empty"
    by code_simp
  show ?thesis by (intro conjI impI a1 a2 a3 a4 a5 a6 a7 a8 a9 a10)
qed

theorem term_fallback_order_witness:
  "\<not> (startswith ''Java'' ''QUOTED_PHRASE_'' \<and> ''Java'' \<in> dom (Map.empty :: string \<rightharpoonup> string))
   \<and> lower ''Java'' = ''java''
   \<and> word_search ''java'' (''i know '' @ ''java'' @ '' programming'')
   \<and> evaluate_expression (Symbol ''Java'') ''i know java programming'' Map.empty = True"
proof -
  note T = term_fallback_order [where obj = "''Java''" and phrases = Map.empty
      and doc = "''i know java programming''" and t = "''java''"]
  have h: "\<not> (startswith ''Java'' ''QUOTED_PHRASE_'' \<and> ''Java'' \<in> dom (Map.empty :: string \<rightharpoonup> string))"
    by simp
  have l: "lower ''Java'' = ''java''" by code_simp
  have d: "''i know java programming'' = ''i know '' @ ''java'' @ '' programming''" by simp
  have w1: "is_word (last ''i know '') = False" "is_word (hd (''java'' @ '' programming'')) = True"
    "is_word (last (''i know '' @ ''java'')) = True" "is_word (hd '' programming'') = False"
    by code_simp+
  from T [THEN conjunct2, THEN conjunct1]
  have "word_search ''java'' ''i know java programming'' \<longleftrightarrow>
        (\<exists>pre post. ''i know java programming'' = pre @ ''java'' @ post
           \<and> ((pre \<noteq> [] \<and> is_word (last pre))
                 \<noteq> (''java'' @ post \<noteq> [] \<and> is_word (hd (''java'' @ post))))
           \<and> ((pre @ ''java'' \<noteq> [] \<and> is_word (last (pre @ ''java'')))
                 \<noteq> (post \<noteq> [] \<and> is_word (hd post))))" .
  moreover have "\<exists>pre post. ''i know java programming'' = pre @ ''java'' @ post
           \<and> ((pre \<noteq> [] \<and> is_word (last pre))
                 \<noteq> (''java'' @ post \<noteq> [] \<and> is_word (hd (''java'' @ post))))
           \<and> ((pre @ ''java'' \<noteq> [] \<and> is_word (last (pre @ ''java'')))
                 \<noteq> (post \<noteq> [] \<and> is_word (hd post)))"
    apply (rule exI [of _ "''i know ''"])
    apply (rule exI [of _ "'' programming''"])
    using w1 by simp
  ultimately have ws: "word_search ''java'' ''i know java programming''" by (rule iffD2)
  from T [THEN conjunct1, rule_format, OF h] have "evaluate_expression (Symbol ''Java'') ''i know java programming'' Map.empty =
        (if word_search (lower ''Java'') ''i know java programming'' then True
         else contains (lower ''Java'') ''i know java programming'')" .
  with ws l have e: "evaluate_expression (Symbol ''Java'') ''i know java programming'' Map.empty = True"
    by simp
  from h l ws e show ?thesis by simp
qed

section \<open>Properties of the flattener\<close>

lemma foldl_recurse:
  "(\<And>v acc. v \<in> set vs \<Longrightarrow> recurse v acc = acc @ string_leaves v) \<Longrightarrow>
   foldl (\<lambda>acc v. recurse v acc) parts vs = parts @ concat (map string_leaves vs)"
  by (induction vs arbitrary: parts) auto

lemma recurse_leaves: "recurse x parts = parts @ string_leaves x"
  by (induction x parts rule: recurse.induct) (auto simp: foldl_recurse)

text \<open>
  C9: the flattener is total and returns the string leaves of the document, in
  depth-first order, joined by single spaces; numbers, booleans and null contribute
  nothing. The document \<^verbatim>\<open>{"a": "x", "b": ["y", "z"]}\<close> flattens to \<^verbatim>\<open>x y z\<close>.
\<close>

theorem flatten_json_leaves:
  "flatten_json x = join '' '' (string_leaves x)
   \<and> flatten_json (JDict [(''a'', JString ''x''), (''b'', JList [JString ''y'', JString ''z''])])
       = ''x y z''
   \<and> flatten_json (JList [JString ''p'', JNumber 7, JBool True, JNull, JString ''q'']) = ''p q''"
  by (simp add: flatten_json_def recurse_leaves dict_values_def)

section \<open>Properties of the query parser\<close>

lemma of_digit_char: "d < 10 \<Longrightarrow> of_char (digit_char d) = 48 + d"
  by (simp add: digit_char_def)

lemma str_nat_value:
  "foldl (\<lambda>a c. 10 * a + (of_char c - 48)) 0 (str_nat n) = n"
proof (induction n rule: str_nat.induct)
  case (1 n)
  show ?case
  proof (cases "n < 10")
    case True
    then show ?thesis by (subst str_nat.simps) (simp add: of_digit_char)
  next
    case False
    with 1 show ?thesis by (subst str_nat.simps) (simp add: of_digit_char)
  qed
qed

lemma str_nat_inj: "str_nat a = str_nat b \<Longrightarrow> a = b"
proof -
  assume h: "str_nat a = str_nat b"
  have "a = foldl (\<lambda>a c. 10 * a + (of_char c - 48)) 0 (str_nat a)"
    by (simp only: str_nat_value)
  also have "\<dots> = foldl (\<lambda>a c. 10 * a + (of_char c - 48)) 0 (str_nat b)"
    by (simp only: h)
  also have "\<dots> = b" by (rule str_nat_value)
  finally show ?thesis .
qed

lemma placeholder_name_inj [simp]: "placeholder_name a = placeholder_name b \<longleftrightarrow> a = b"
  by (auto simp: placeholder_name_def dest: str_nat_inj)

lemma map_add_upd_left:
  "k \<notin> dom m \<Longrightarrow> t(k \<mapsto> v) ++ m = t ++ m(k \<mapsto> v)"
  by (auto simp: map_add_def fun_eq_iff split: option.splits)

lemma placeholder_fresh:
  "placeholder_name k \<notin> dom (map_of (zip (map placeholder_name [Suc k ..< j]) ps))"
proof
  assume "placeholder_name k \<in> dom (map_of (zip (map placeholder_name [Suc k ..< j]) ps))"
  then have "placeholder_name k \<in> set (map placeholder_name [Suc k ..< j])"
    by (auto dest!: map_of_SomeD set_zip_leftD)
  then show False by auto
qed

lemma preprocess_query_general:
  "preprocess_query q self =
     (substitute_spans q (map placeholder_name
         [placeholder_counter self ..< placeholder_counter self + length (findall_quoted q)]),
      self\<lparr>quoted_phrases := quoted_phrases self ++
              map_of (zip (map placeholder_name
                [placeholder_counter self ..< placeholder_counter self + length (findall_quoted q)])
                (findall_quoted q)),
           placeholder_counter := placeholder_counter self + length (findall_quoted q)\<rparr>)"
proof (induction q self rule: preprocess_query.induct)
  case (1 self)
  then show ?case by simp
next
  case (2 c cs self)
  show ?case
  proof (cases "match_quoted (c # cs)")
    case None
    with 2 show ?thesis by simp
  next
    case (Some pr)
    obtain phrase rest where pr: "pr = (phrase, rest)" by (cases pr)
    let ?k = "placeholder_counter self"
    let ?n = "length (findall_quoted rest)"
    let ?ks = "map placeholder_name [Suc ?k ..< Suc ?k + ?n]"
    let ?self1 = "self\<lparr>quoted_phrases := (quoted_phrases self)(placeholder_name ?k \<mapsto> phrase),
               placeholder_counter := Suc ?k\<rparr>"
    have rq: "replace_quoted phrase self = (placeholder_name ?k, ?self1)"
      by (simp add: replace_quoted_def Let_def)
    have IH: "preprocess_query rest ?self1 =
       (substitute_spans rest ?ks,
        ?self1\<lparr>quoted_phrases := quoted_phrases ?self1 ++ map_of (zip ?ks (findall_quoted rest)),
           placeholder_counter := Suc ?k + ?n\<rparr>)"
      using 2(2) [OF Some pr [symmetric] rq [symmetric]] by (simp del: upt_Suc add: fun_upd_def)
    have fa: "findall_quoted (c # cs) = phrase # findall_quoted rest"
      using Some pr by simp
    have L: "map placeholder_name [?k ..< ?k + length (phrase # findall_quoted rest)]
               = placeholder_name ?k # ?ks"
      by (simp add: upt_conv_Cons del: upt_Suc)
    have pre: "preprocess_query (c # cs) self =
        (placeholder_name ?k @ fst (preprocess_query rest ?self1),
         snd (preprocess_query rest ?self1))"
      using Some pr rq by (simp add: case_prod_beta)
    have sub: "substitute_spans (c # cs) (placeholder_name ?k # ?ks)
                 = placeholder_name ?k @ substitute_spans rest ?ks"
      using Some pr by simp
    have tbl: "(quoted_phrases self)(placeholder_name ?k \<mapsto> phrase)
                 ++ map_of (zip ?ks (findall_quoted rest))
               = quoted_phrases self
                 ++ map_of (zip (placeholder_name ?k # ?ks) (phrase # findall_quoted rest))"
      using map_add_upd_left [OF placeholder_fresh] by (simp del: upt_Suc)
    have "preprocess_query (c # cs) self =
       (substitute_spans (c # cs) (placeholder_name ?k # ?ks),
        self\<lparr>quoted_phrases := quoted_phrases self
                  ++ map_of (zip (placeholder_name ?k # ?ks) (phrase # findall_quoted rest)),
             placeholder_counter := ?k + length (phrase # findall_quoted rest)\<rparr>)"
      unfolding pre IH sub tbl [symmetric] by (simp del: upt_Suc)
    then show ?thesis unfolding fa L .
  qed
qed

lemma reset_parser:
  "(self :: parser)\<lparr>quoted_phrases := Map.empty, placeholder_counter := 0\<rparr> = new_parser"
  by (simp add: new_parser_def)

lemma parse_query_state:
  "snd (parse_query P q self) = snd (preprocess_query q new_parser)"
  by (simp add: parse_query_def reset_parser case_prod_beta split: sum.splits)

lemma preprocess_new_parser:
  "preprocess_query q new_parser =
     (substitute_spans q (map placeholder_name [0 ..< length (findall_quoted q)]),
      \<lparr>quoted_phrases = map_of (zip (map placeholder_name [0 ..< length (findall_quoted q)])
                             (findall_quoted q)),
       placeholder_counter = length (findall_quoted q)\<rparr>)"
  using preprocess_query_general [of q new_parser] by (simp add: new_parser_def del: upt_Suc)

lemma distinct_placeholders: "distinct (map placeholder_name [0 ..< n])"
  by (simp add: distinct_map inj_on_def)

text \<open>
  C7: whatever the parser held before, after \<open>parse_query\<close> the counter is the number of
  quoted spans of the query, the keys of the phrase table are exactly
  \<^verbatim>\<open>QUOTED_PHRASE_0\<close> to \<^verbatim>\<open>QUOTED_PHRASE_(n-1)\<close>, the \<open>i\<close>-th of them maps to the text of
  the \<open>i\<close>-th quoted span, the query handed to the grammar is the raw query with its
  \<open>i\<close>-th span replaced by the \<open>i\<close>-th placeholder, and the parser is left as a call on a
  fresh parser leaves it.
\<close>

theorem parse_query_fresh_table:
  "placeholder_counter (snd (parse_query P q self)) = length (findall_quoted q)
   \<and> dom (quoted_phrases (snd (parse_query P q self)))
       = placeholder_name ` {..< length (findall_quoted q)}
   \<and> (\<forall>i < length (findall_quoted q).
         quoted_phrases (snd (parse_query P q self)) (placeholder_name i)
           = Some (findall_quoted q ! i))
   \<and> fst (preprocess_query q (self\<lparr>quoted_phrases := Map.empty, placeholder_counter := 0\<rparr>))
       = substitute_spans q (map placeholder_name [0 ..< length (findall_quoted q)])
   \<and> snd (parse_query P q self) = snd (parse_query P q new_parser)"
proof -
  let ?n = "length (findall_quoted q)"
  let ?ks = "map placeholder_name [0 ..< ?n]"
  have st: "snd (parse_query P q self) =
      \<lparr>quoted_phrases = map_of (zip ?ks (findall_quoted q)), placeholder_counter = ?n\<rparr>"
    by (simp only: parse_query_state preprocess_new_parser snd_conv)
  have c1: "placeholder_counter (snd (parse_query P q self)) = ?n"
    by (simp only: st parser.simps)
  have c2: "dom (quoted_phrases (snd (parse_query P q self))) = placeholder_name ` {..< ?n}"
    by (simp add: st dom_map_of_zip atLeast0LessThan del: upt_Suc)
  have c3: "quoted_phrases (snd (parse_query P q self)) (placeholder_name i)
           = Some (findall_quoted q ! i)" if "i < ?n" for i
  proof -
    have "map_of (zip ?ks (findall_quoted q)) (?ks ! i) = Some (findall_quoted q ! i)"
      using that by (intro map_of_zip_nth distinct_placeholders) simp_all
    with that show ?thesis by (simp add: st del: upt_Suc)
  qed
  have c4: "fst (preprocess_query q (self\<lparr>quoted_phrases := Map.empty, placeholder_counter := 0\<rparr>))
       = substitute_spans q ?ks"
    by (simp only: reset_parser preprocess_new_parser fst_conv)
  have c5: "snd (parse_query P q self) = snd (parse_query P q new_parser)"
    by (simp only: parse_query_state)
  from c1 c2 c3 c4 c5 show ?thesis by blast
qed

theorem parse_query_fresh_table_witness:
  "findall_quoted ([dquote] @ ''Machine Learning'' @ [dquote] @ '' AND '' @ [dquote] @ ''a b'' @ [dquote])
     = [''Machine Learning'', ''a b'']
   \<and> placeholder_counter (snd (parse_query (\<lambda>s. Inr (Symbol s))
        ([dquote] @ ''Machine Learning'' @ [dquote] @ '' AND '' @ [dquote] @ ''a b'' @ [dquote])
        \<lparr>quoted_phrases = [''QUOTED_PHRASE_7'' \<mapsto> ''stale''], placeholder_counter = 8\<rparr>)) = 2
   \<and> quoted_phrases (snd (parse_query (\<lambda>s. Inr (Symbol s))
        ([dquote] @ ''Machine Learning'' @ [dquote] @ '' AND '' @ [dquote] @ ''a b'' @ [dquote])
        \<lparr>quoted_phrases = [''QUOTED_PHRASE_7'' \<mapsto> ''stale''], placeholder_counter = 8\<rparr>))
        ''QUOTED_PHRASE_1'' = Some ''a b''
   \<and> quoted_phrases (snd (parse_query (\<lambda>s. Inr (Symbol s))
        ([dquote] @ ''Machine Learning'' @ [dquote] @ '' AND '' @ [dquote] @ ''a b'' @ [dquote])
        \<lparr>quoted_phrases = [''QUOTED_PHRASE_7'' \<mapsto> ''stale''], placeholder_counter = 8\<rparr>))
        ''QUOTED_PHRASE_7'' = None"
proof -
  let ?q = "[dquote] @ ''Machine Learning'' @ [dquote] @ '' AND '' @ [dquote] @ ''a b'' @ [dquote]"
  let ?old = "\<lparr>quoted_phrases = [''QUOTED_PHRASE_7'' \<mapsto> ''stale''], placeholder_counter = 8\<rparr>"
  let ?new = "snd (parse_query (\<lambda>s. Inr (Symbol s)) ?q ?old)"
  have f: "findall_quoted ?q = [''Machine Learning'', ''a b'']" by code_simp
  have n: "placeholder_name 1 = ''QUOTED_PHRASE_1''" by code_simp
  have m: "placeholder_name 7 = ''QUOTED_PHRASE_7''" by code_simp
  note T = parse_query_fresh_table [of "\<lambda>s. Inr (Symbol s)" ?q ?old, unfolded f]
  from T have "placeholder_counter ?new = length [''Machine Learning'', ''a b'']"
    by (rule conjunct1)
  then have a: "placeholder_counter ?new = 2" by simp
  from T have "\<forall>i < length [''Machine Learning'', ''a b''].
      quoted_phrases ?new (placeholder_name i) = Some ([''Machine Learning'', ''a b''] ! i)"
    by blast
  then have "quoted_phrases ?new (placeholder_name 1) = Some ([''Machine Learning'', ''a b''] ! 1)"
    by simp
  then have b: "quoted_phrases ?new ''QUOTED_PHRASE_1'' = Some ''a b''"
    unfolding n by simp
  from T have "dom (quoted_phrases ?new)
      = placeholder_name ` {..< length [''Machine Learning'', ''a b'']}"
    by blast
  moreover have "placeholder_name 7 \<notin> placeholder_name ` {..< length [''Machine Learning'', ''a b'']}"
    by (simp add: image_iff)
  ultimately have "placeholder_name 7 \<notin> dom (quoted_phrases ?new)" by simp
  then have c: "quoted_phrases ?new ''QUOTED_PHRASE_7'' = None"
    unfolding m by (simp add: domIff)
  from f a b c show ?thesis by blast
qed

text \<open>
  C3: a query that holds none of \<^verbatim>\<open>AND\<close>, \<^verbatim>\<open>OR\<close>, \<^verbatim>\<open>NOT\<close> and no quote is turned
  into the single term of its lowercased text, whatever the grammar parser is.
\<close>

theorem fast_path_single_term:
  "\<not> contains ''AND'' q \<Longrightarrow> \<not> contains ''OR'' q \<Longrightarrow> \<not> contains ''NOT'' q \<Longrightarrow>
   \<not> contains [dquote] q \<Longrightarrow>
   main_parse P q = (Inr (Symbol (lower q)), new_parser)"
  by (simp add: main_parse_def)

theorem fast_path_single_term_witness:
  "\<not> contains ''AND'' ''Machine learning'' \<and> \<not> contains ''OR'' ''Machine learning''
   \<and> \<not> contains ''NOT'' ''Machine learning'' \<and> \<not> contains [dquote] ''Machine learning''
   \<and> main_parse (\<lambda>s. Inl ''unused'') ''Machine learning''
       = (Inr (Symbol ''machine learning''), new_parser)"
proof -
  have h1: "\<not> contains ''AND'' ''Machine learning''" by code_simp
  have h2: "\<not> contains ''OR'' ''Machine learning''" by code_simp
  have h3: "\<not> contains ''NOT'' ''Machine learning''" by code_simp
  have h4: "\<not> contains [dquote] ''Machine learning''" by code_simp
  have l: "lower ''Machine learning'' = ''machine learning''" by code_simp
  show ?thesis
    using fast_path_single_term [OF h1 h2 h3 h4, of "\<lambda>s. Inl ''unused''"] h1 h2 h3 h4
    unfolding l by blast
qed

text \<open>
  The modelled grammar fails on each syntax error the specification names: when a
  parse succeeds, the tokens hold no empty expression, no dangling operator and no
  unbalanced parenthesis.
\<close>

lemma step_need:
  "step t (f, outer) = Inr (f', outer') \<Longrightarrow> need f = starts_operand t \<and> need f' = needs_after t"
  by (cases t)
     (auto simp: starts_operand_def needs_after_def operand_def new_frame_def
           split: if_splits list.splits)

lemma step_depth:
  "step t (f, outer) = Inr (f', outer') \<Longrightarrow>
   depth_after (length outer) (t # ts) = depth_after (length outer') ts"
  by (cases t) (auto split: if_splits list.splits)

lemma run_depth:
  "run ts (f, outer) = Inr (f', outer') \<Longrightarrow> depth_after (length outer) ts = Some (length outer')"
proof (induction ts arbitrary: f outer)
  case Nil
  then show ?case by simp
next
  case (Cons t ts)
  from Cons.prems obtain g gs where s: "step t (f, outer) = Inr (g, gs)"
    and r: "run ts (g, gs) = Inr (f', outer')"
    by (auto split: sum.splits)
  from step_depth [OF s] Cons.IH [OF r] show ?case by simp
qed

lemma run_hd:
  "run (t # ts) (f, outer) = Inr st' \<Longrightarrow> need f = starts_operand t"
  by (auto split: sum.splits dest: step_need)

lemma run_last:
  "run ts st = Inr (f', outer') \<Longrightarrow> ts \<noteq> [] \<Longrightarrow> need f' = needs_after (last ts)"
proof (induction ts arbitrary: st)
  case Nil
  then show ?case by simp
next
  case (Cons t ts)
  obtain f outer where st: "st = (f, outer)" by (cases st)
  from Cons.prems(1) st obtain g gs where s: "step t (f, outer) = Inr (g, gs)"
    and r: "run ts (g, gs) = Inr (f', outer')"
    by (auto split: sum.splits)
  show ?case
  proof (cases "ts = []")
    case True
    with r s show ?thesis by (auto dest: step_need)
  next
    case False
    with Cons.IH [OF r] show ?thesis by simp
  qed
qed

lemma run_adjacent:
  "run ts st = Inr st' \<Longrightarrow> \<not> adjacent (\<lambda>a b. needs_after a \<noteq> starts_operand b) ts"
proof (induction ts arbitrary: st)
  case Nil
  then show ?case by simp
next
  case (Cons a ts)
  obtain f outer where st: "st = (f, outer)" by (cases st)
  from Cons.prems st obtain g gs where s: "step a (f, outer) = Inr (g, gs)"
    and r: "run ts (g, gs) = Inr st'"
    by (auto split: sum.splits)
  show ?case
  proof (cases ts)
    case Nil
    then show ?thesis by simp
  next
    case (Cons b ts')
    from step_need [OF s] run_hd [OF r [unfolded Cons]]
    have "needs_after a = starts_operand b" by simp
    with Cons.IH [OF r] Cons show ?thesis by simp
  qed
qed

lemma adjacent_mono:
  "adjacent P ts \<Longrightarrow> (\<And>a b. P a b \<Longrightarrow> Q a b) \<Longrightarrow> adjacent Q ts"
  by (induction P ts rule: adjacent.induct) auto

lemma finish_ok: "finish (f, outer) = Inr e \<Longrightarrow> outer = [] \<and> \<not> need f"
  by (auto split: if_splits)

lemma parse_ok_shape:
  assumes "boolean_algebra_parse s = Inr e"
  shows "\<not> empty_expression (tokenize s) \<and> \<not> dangling_operator (tokenize s)
         \<and> \<not> unbalanced (tokenize s)"
proof -
  let ?ts = "tokenize s"
  from assms obtain f outer where r: "run ?ts (new_frame, []) = Inr (f, outer)"
    and fin: "finish (f, outer) = Inr e"
    by (auto simp: boolean_algebra_parse_def split: sum.splits)
  from finish_ok [OF fin] have out: "outer = []" and nf: "\<not> need f" by simp_all
  have ne: "?ts \<noteq> []"
  proof
    assume "?ts = []"
    with r have "f = new_frame" by simp
    with nf show False by (simp add: new_frame_def)
  qed
  then obtain t ts' where ts: "?ts = t # ts'" by (cases ?ts) auto
  from run_hd [of t ts' new_frame "[]"] r ts have hd: "starts_operand (hd ?ts)"
    by (simp add: new_frame_def)
  from run_last [OF r ne] nf have lst: "\<not> needs_after (last ?ts)" by simp
  note adj = run_adjacent [OF r]
  from run_depth [OF r] out have bal: "depth_after 0 ?ts = Some 0" by simp
  have e: "\<not> empty_expression ?ts"
  proof
    assume "empty_expression ?ts"
    with ne have "adjacent (\<lambda>a b. a = TLpar \<and> b = TRpar) ?ts"
      by (simp add: empty_expression_def)
    then have "adjacent (\<lambda>a b. needs_after a \<noteq> starts_operand b) ?ts"
      by (rule adjacent_mono) (simp add: needs_after_def starts_operand_def)
    with adj show False by simp
  qed
  have d: "\<not> dangling_operator ?ts"
  proof
    assume "dangling_operator ?ts"
    then consider
      "adjacent (\<lambda>a b. (is_operator a \<and> (b = TRpar \<or> is_binary b)) \<or> (a = TLpar \<and> is_binary b)) ?ts"
      | "is_operator (last ?ts)" | "is_binary (hd ?ts)"
      by (auto simp: dangling_operator_def)
    then show False
    proof cases
      case 1
      then have "adjacent (\<lambda>a b. needs_after a \<noteq> starts_operand b) ?ts"
        by (rule adjacent_mono)
           (auto simp: needs_after_def starts_operand_def is_operator_def is_binary_def)
      with adj show False by simp
    next
      case 2
      with lst show False
        by (auto simp: needs_after_def is_operator_def is_binary_def)
    next
      case 3
      with hd show False by (auto simp: starts_operand_def is_binary_def)
    qed
  qed
  from bal have u: "\<not> unbalanced ?ts" by (simp add: unbalanced_def)
  from e d u show ?thesis by simp
qed

lemma malformed_fails:
  "empty_expression (tokenize s) \<or> dangling_operator (tokenize s) \<or> unbalanced (tokenize s) \<Longrightarrow>
   \<exists>msg. boolean_algebra_parse s = Inl msg"
  using parse_ok_shape [of s] by (cases "boolean_algebra_parse s") auto

lemma run_append:
  "run (a @ b) st = (case run a st of Inl e \<Rightarrow> Inl e | Inr st' \<Rightarrow> run b st')"
  by (induction a arbitrary: st) (auto split: sum.splits)

lemma wellformed_run:
  "wellformed ts \<Longrightarrow> need f \<Longrightarrow> \<exists>f'. run ts (f, outer) = Inr (f', outer) \<and> \<not> need f'"
proof (induction ts arbitrary: f outer rule: wellformed.induct)
  case (leaf s)
  then show ?case by (simp add: operand_def)
next
  case (neg ts)
  from neg.prems have "need (f\<lparr>nots := nots f + 1\<rparr>)" by simp
  from neg.IH [OF this, of outer] neg.prems show ?case by simp
next
  case (conj a b)
  from conj.IH(1) [OF conj.prems, of outer] obtain g
    where a: "run a (f, outer) = Inr (g, outer)" and g: "\<not> need g" by blast
  have "need (g\<lparr>need := True\<rparr>)" by simp
  from conj.IH(2) [OF this, of outer] obtain h
    where b: "run b (g\<lparr>need := True\<rparr>, outer) = Inr (h, outer)" and h: "\<not> need h" by blast
  from a g b h show ?case by (simp add: run_append)
next
  case (disj a b)
  from disj.IH(1) [OF disj.prems, of outer] obtain g
    where a: "run a (f, outer) = Inr (g, outer)" and g: "\<not> need g" by blast
  let ?g = "g\<lparr>ors := ors g @ [mk_node AND (ands g)], ands := [], need := True\<rparr>"
  have "need ?g" by simp
  from disj.IH(2) [OF this, of outer] obtain h
    where b: "run b (?g, outer) = Inr (h, outer)" and h: "\<not> need h" by blast
  from a g b h show ?case by (simp add: run_append)
next
  case (paren ts)
  have "need new_frame" by (simp add: new_frame_def)
  from paren.IH [OF this, of "f # outer"] obtain g
    where a: "run ts (new_frame, f # outer) = Inr (g, f # outer)" and g: "\<not> need g" by blast
  from a g paren.prems show ?case by (simp add: run_append operand_def)
qed

lemma wellformed_parses:
  "wellformed (tokenize s) \<Longrightarrow> \<exists>tree. boolean_algebra_parse s = Inr tree"
proof -
  assume "wellformed (tokenize s)"
  moreover have "need new_frame" by (simp add: new_frame_def)
  ultimately obtain f where "run (tokenize s) (new_frame, []) = Inr (f, [])" "\<not> need f"
    using wellformed_run by blast
  then show ?thesis by (simp add: boolean_algebra_parse_def)
qed

text \<open>
  Conversely the modelled grammar accepts nothing but well-formed expressions: the
  tokens read so far always decompose as \<^const>\<open>consumed\<close> says.
\<close>

lemma hole_Nil: "hole []"
  by (simp add: hole_def)

lemma hole_not: "hole p \<Longrightarrow> hole (p @ [TNot])"
  by (simp add: hole_def wellformed.neg)

lemma hole_and: "wellformed q \<Longrightarrow> hole (q @ [TAnd])"
  by (simp add: hole_def wellformed.conj)

lemma hole_or: "wellformed q \<Longrightarrow> hole (q @ [TOr])"
  by (simp add: hole_def wellformed.disj)

lemma hole_fill: "hole p \<Longrightarrow> wellformed w \<Longrightarrow> wellformed (p @ w)"
  by (simp add: hole_def)

lemma consumed_step:
  assumes c: "consumed p (f, outer)" and s: "step t (f, outer) = Inr (f', outer')"
  shows "consumed (p @ [t]) (f', outer')"
proof -
  from c obtain os cur where p: "p = concat (map (\<lambda>q. q @ [TLpar]) os) @ cur"
    and l: "length os = length outer" and h: "\<forall>q \<in> set os. hole q"
    and cur: "if need f then hole cur else wellformed cur"
    by (auto simp: consumed_def)
  show ?thesis
  proof (cases t)
    case (TSym x)
    with s have n: "need f" and f': "\<not> need f'" and ou: "outer' = outer"
      by (auto simp: operand_def split: if_splits)
    from n cur have "wellformed (cur @ [TSym x])"
      by (auto intro: hole_fill wellformed.leaf)
    with p l h f' ou TSym show ?thesis
      unfolding consumed_def
      by (intro exI [of _ os] exI [of _ "cur @ [TSym x]"]) simp
  next
    case TNot
    with s have n: "need f" and f': "need f'" and ou: "outer' = outer"
      by (auto split: if_splits)
    from n cur have "hole (cur @ [TNot])" by (auto intro: hole_not)
    with p l h f' ou TNot show ?thesis
      unfolding consumed_def
      by (intro exI [of _ os] exI [of _ "cur @ [TNot]"]) simp
  next
    case TLpar
    with s have n: "need f" and f': "need f'" and ou: "outer' = f # outer"
      by (auto simp: new_frame_def split: if_splits)
    from n cur have "hole cur" by simp
    with p l h f' ou TLpar show ?thesis
      unfolding consumed_def
      by (intro exI [of _ "os @ [cur]"] exI [of _ "[]"]) (simp add: hole_Nil)
  next
    case TAnd
    with s have n: "\<not> need f" and f': "need f'" and ou: "outer' = outer"
      by (auto split: if_splits)
    from n cur have "hole (cur @ [TAnd])" by (auto intro: hole_and)
    with p l h f' ou TAnd show ?thesis
      unfolding consumed_def
      by (intro exI [of _ os] exI [of _ "cur @ [TAnd]"]) simp
  next
    case TOr
    with s have n: "\<not> need f" and f': "need f'" and ou: "outer' = outer"
      by (auto split: if_splits)
    from n cur have "hole (cur @ [TOr])" by (auto intro: hole_or)
    with p l h f' ou TOr show ?thesis
      unfolding consumed_def
      by (intro exI [of _ os] exI [of _ "cur @ [TOr]"]) simp
  next
    case TRpar
    with s obtain g where n: "\<not> need f" and f': "\<not> need f'" and ou: "outer = g # outer'"
      by (auto simp: operand_def split: if_splits list.splits)
    from l ou obtain os' o' where os: "os = os' @ [o']" and l': "length os' = length outer'"
      by (cases os rule: rev_cases) auto
    from h os have ho: "hole o'" and h': "\<forall>q \<in> set os'. hole q" by simp_all
    from n cur have "wellformed cur" by simp
    then have "wellformed (TLpar # cur @ [TRpar])" by (rule wellformed.paren)
    with ho have w: "wellformed (o' @ TLpar # cur @ [TRpar])" by (rule hole_fill)
    from p os have "p @ [t] = concat (map (\<lambda>q. q @ [TLpar]) os') @ (o' @ TLpar # cur @ [TRpar])"
      using TRpar by simp
    with w l' h' f' show ?thesis
      unfolding consumed_def
      by (intro exI [of _ os'] exI [of _ "o' @ TLpar # cur @ [TRpar]"]) simp
  qed
qed

lemma consumed_run:
  "consumed p st \<Longrightarrow> run ts st = Inr st' \<Longrightarrow> consumed (p @ ts) st'"
proof (induction ts arbitrary: p st)
  case Nil
  then show ?case by simp
next
  case (Cons t ts)
  obtain f outer where st: "st = (f, outer)" by (cases st)
  from Cons.prems(2) st obtain g gs where s: "step t (f, outer) = Inr (g, gs)"
    and r: "run ts (g, gs) = Inr st'"
    by (auto split: sum.splits)
  from Cons.prems(1) st s have "consumed (p @ [t]) (g, gs)" by (auto intro: consumed_step)
  from Cons.IH [OF this r] show ?case by simp
qed

lemma parses_wellformed:
  assumes "boolean_algebra_parse s = Inr e"
  shows "wellformed (tokenize s)"
proof -
  from assms obtain f outer where r: "run (tokenize s) (new_frame, []) = Inr (f, outer)"
    and fin: "finish (f, outer) = Inr e"
    by (auto simp: boolean_algebra_parse_def split: sum.splits)
  have "consumed [] (new_frame, [])"
    by (simp add: consumed_def new_frame_def hole_Nil)
  from consumed_run [OF this r] have "consumed (tokenize s) (f, outer)" by simp
  with finish_ok [OF fin] show ?thesis by (auto simp: consumed_def)
qed

lemma parse_iff_wellformed:
  "(\<exists>tree. boolean_algebra_parse s = Inr tree) \<longleftrightarrow> wellformed (tokenize s)"
  using parses_wellformed wellformed_parses by blast

text \<open>Whatever the grammar parser is, \<open>parse_query\<close> relays its verdict.\<close>

lemma parse_query_relays:
  "(algebra_parse (fst (preprocess_query query new_parser)) = Inl e \<longrightarrow>
      fst (parse_query algebra_parse query self)
        = Inl (ValueError (''Invalid Boolean query: '' @ e)))
   \<and> (algebra_parse (fst (preprocess_query query new_parser)) = Inr tree \<longrightarrow>
      fst (parse_query algebra_parse query self) = Inr tree)"
  by (simp add: parse_query_def reset_parser case_prod_beta)

text \<open>
  C8: with the grammar modelled from the specification, a query whose tokens hold an
  empty expression, a dangling operator or unbalanced parentheses is not well formed;
  on every query that is not well formed the grammar fails with a message and
  \<open>parse_query\<close> fails with a \<^verbatim>\<open>ValueError\<close> whose message is
  \<^verbatim>\<open>Invalid Boolean query: \<close> followed by that message, returning no tree; on every
  well-formed query the grammar returns a tree and \<open>parse_query\<close> returns it. For any
  grammar parser at all, \<open>parse_query\<close> turns its error into that \<^verbatim>\<open>ValueError\<close> and
  returns the tree it returns. The query \<^verbatim>\<open>"Machine Learning" AND (Python OR R)\<close> is
  read as a conjunction of the placeholder and a disjunction, and \<^verbatim>\<open>NOT Python\<close> as a
  negation.
\<close>

theorem parse_query_error:
  "(empty_expression (query_tokens query) \<or> dangling_operator (query_tokens query)
      \<or> unbalanced (query_tokens query) \<longrightarrow> \<not> wellformed (query_tokens query))
   \<and> (\<not> wellformed (query_tokens query) \<longrightarrow>
        (\<exists>msg. boolean_algebra_parse (fst (preprocess_query query new_parser)) = Inl msg
           \<and> fst (parse_query boolean_algebra_parse query self)
               = Inl (ValueError (''Invalid Boolean query: '' @ msg))))
   \<and> (wellformed (query_tokens query) \<longrightarrow>
        (\<exists>tree. boolean_algebra_parse (fst (preprocess_query query new_parser)) = Inr tree
           \<and> fst (parse_query boolean_algebra_parse query self) = Inr tree))
   \<and> (algebra_parse (fst (preprocess_query query new_parser)) = Inl e \<longrightarrow>
        fst (parse_query algebra_parse query self)
          = Inl (ValueError (''Invalid Boolean query: '' @ e)))
   \<and> (algebra_parse (fst (preprocess_query query new_parser)) = Inr tree0 \<longrightarrow>
        fst (parse_query algebra_parse query self) = Inr tree0)
   \<and> query_tokens ([dquote] @ ''Machine Learning'' @ [dquote] @ '' AND (Python OR R)'')
       = [TSym ''QUOTED_PHRASE_0'', TAnd, TLpar, TSym ''Python'', TOr, TSym ''R'', TRpar]
   \<and> fst (parse_query boolean_algebra_parse
             ([dquote] @ ''Machine Learning'' @ [dquote] @ '' AND (Python OR R)'') new_parser)
       = Inr (AND [Symbol ''QUOTED_PHRASE_0'', OR [Symbol ''Python'', Symbol ''R'']])
   \<and> boolean_algebra_parse ''NOT Python'' = Inr (NOT (Symbol ''Python''))
   \<and> boolean_algebra_parse ''a OR b AND NOT c OR d''
       = Inr (OR [Symbol ''a'', AND [Symbol ''b'', NOT (Symbol ''c'')], Symbol ''d''])"
proof -
  let ?p = "fst (preprocess_query query new_parser)"
  have c6: "query_tokens ([dquote] @ ''Machine Learning'' @ [dquote] @ '' AND (Python OR R)'')
       = [TSym ''QUOTED_PHRASE_0'', TAnd, TLpar, TSym ''Python'', TOr, TSym ''R'', TRpar]"
    by code_simp
  have c7: "fst (parse_query boolean_algebra_parse
             ([dquote] @ ''Machine Learning'' @ [dquote] @ '' AND (Python OR R)'') new_parser)
       = Inr (AND [Symbol ''QUOTED_PHRASE_0'', OR [Symbol ''Python'', Symbol ''R'']])"
    by code_simp
  have c8: "boolean_algebra_parse ''NOT Python'' = Inr (NOT (Symbol ''Python''))"
    by code_simp
  have c9: "boolean_algebra_parse ''a OR b AND NOT c OR d''
       = Inr (OR [Symbol ''a'', AND [Symbol ''b'', NOT (Symbol ''c'')], Symbol ''d''])"
    by code_simp
  have c1: "empty_expression (query_tokens query) \<or> dangling_operator (query_tokens query)
      \<or> unbalanced (query_tokens query) \<longrightarrow> \<not> wellformed (query_tokens query)"
  proof
    assume m: "empty_expression (query_tokens query) \<or> dangling_operator (query_tokens query)
      \<or> unbalanced (query_tokens query)"
    show "\<not> wellformed (query_tokens query)"
    proof
      assume "wellformed (query_tokens query)"
      then obtain tree where "boolean_algebra_parse ?p = Inr tree"
        using wellformed_parses [of ?p] by (auto simp: query_tokens_def)
      from parse_ok_shape [OF this] m show False by (simp add: query_tokens_def)
    qed
  qed
  have c2: "\<not> wellformed (query_tokens query) \<longrightarrow>
        (\<exists>msg. boolean_algebra_parse ?p = Inl msg
           \<and> fst (parse_query boolean_algebra_parse query self)
               = Inl (ValueError (''Invalid Boolean query: '' @ msg)))"
  proof
    assume n: "\<not> wellformed (query_tokens query)"
    obtain msg where msg: "boolean_algebra_parse ?p = Inl msg"
    proof (cases "boolean_algebra_parse ?p")
      case (Inl a)
      then show ?thesis by (rule that)
    next
      case (Inr b)
      from parses_wellformed [OF this] n show ?thesis by (simp add: query_tokens_def)
    qed
    with parse_query_relays [of boolean_algebra_parse query msg self]
    show "\<exists>msg. boolean_algebra_parse ?p = Inl msg
           \<and> fst (parse_query boolean_algebra_parse query self)
               = Inl (ValueError (''Invalid Boolean query: '' @ msg))"
      by blast
  qed
  have c3: "wellformed (query_tokens query) \<longrightarrow>
        (\<exists>tree. boolean_algebra_parse ?p = Inr tree
           \<and> fst (parse_query boolean_algebra_parse query self) = Inr tree)"
  proof
    assume "wellformed (query_tokens query)"
    then obtain tree where t: "boolean_algebra_parse ?p = Inr tree"
      using wellformed_parses [of ?p] by (auto simp: query_tokens_def)
    with parse_query_relays [where algebra_parse = boolean_algebra_parse and query = query
        and tree = tree and self = self]
    show "\<exists>tree. boolean_algebra_parse ?p = Inr tree
           \<and> fst (parse_query boolean_algebra_parse query self) = Inr tree"
      by blast
  qed
  note c4 = parse_query_relays [where algebra_parse = algebra_parse and query = query
      and e = e and self = self, THEN conjunct1]
  note c5 = parse_query_relays [where algebra_parse = algebra_parse and query = query
      and tree = tree0 and self = self, THEN conjunct2]
  show ?thesis by (intro conjI c1 c2 c3 c4 c5 c6 c7 c8 c9)
qed

theorem parse_query_error_witness:
  "dangling_operator (query_tokens ''python AND'')
   \<and> (\<exists>msg. fst (parse_query boolean_algebra_parse ''python AND'' new_parser)
         = Inl (ValueError (''Invalid Boolean query: '' @ msg)))
   \<and> fst (parse_query boolean_algebra_parse ''python AND'' new_parser)
       = Inl (ValueError ''Invalid Boolean query: dangling operator'')
   \<and> unbalanced (query_tokens ''(python OR java'')
   \<and> (\<exists>msg. fst (parse_query boolean_algebra_parse ''(python OR java'' new_parser)
         = Inl (ValueError (''Invalid Boolean query: '' @ msg)))
   \<and> fst (parse_query boolean_algebra_parse ''(python OR java'' new_parser)
       = Inl (ValueError ''Invalid Boolean query: unbalanced parentheses'')
   \<and> empty_expression (query_tokens ''python AND ()'')
   \<and> (\<exists>msg. fst (parse_query boolean_algebra_parse ''python AND ()'' new_parser)
         = Inl (ValueError (''Invalid Boolean query: '' @ msg)))
   \<and> fst (parse_query boolean_algebra_parse ''python AND ()'' new_parser)
       = Inl (ValueError ''Invalid Boolean query: empty expression'')
   \<and> wellformed (query_tokens ''Python AND (Django OR Flask)'')
   \<and> (\<exists>tree. fst (parse_query boolean_algebra_parse ''Python AND (Django OR Flask)'' new_parser)
         = Inr tree)
   \<and> fst (parse_query boolean_algebra_parse ''Python AND (Django OR Flask)'' new_parser)
       = Inr (AND [Symbol ''Python'', OR [Symbol ''Django'', Symbol ''Flask'']])"
proof -
  note T = parse_query_error [where self = new_parser and algebra_parse = boolean_algebra_parse]
  have d1: "dangling_operator (query_tokens ''python AND'')" by code_simp
  from T [where query = "''python AND''", THEN conjunct1] d1
  have "\<not> wellformed (query_tokens ''python AND'')" by blast
  with T [where query = "''python AND''", THEN conjunct2, THEN conjunct1]
  have e1: "\<exists>msg. fst (parse_query boolean_algebra_parse ''python AND'' new_parser)
         = Inl (ValueError (''Invalid Boolean query: '' @ msg))" by blast
  have v1: "fst (parse_query boolean_algebra_parse ''python AND'' new_parser)
       = Inl (ValueError ''Invalid Boolean query: dangling operator'')" by code_simp
  have d2: "unbalanced (query_tokens ''(python OR java'')" by code_simp
  from T [where query = "''(python OR java''", THEN conjunct1] d2
  have "\<not> wellformed (query_tokens ''(python OR java'')" by blast
  with T [where query = "''(python OR java''", THEN conjunct2, THEN conjunct1]
  have e2: "\<exists>msg. fst (parse_query boolean_algebra_parse ''(python OR java'' new_parser)
         = Inl (ValueError (''Invalid Boolean query: '' @ msg))" by blast
  have v2: "fst (parse_query boolean_algebra_parse ''(python OR java'' new_parser)
       = Inl (ValueError ''Invalid Boolean query: unbalanced parentheses'')" by code_simp
  have d3: "empty_expression (query_tokens ''python AND ()'')" by code_simp
  from T [where query = "''python AND ()''", THEN conjunct1] d3
  have "\<not> wellformed (query_tokens ''python AND ()'')" by blast
  with T [where query = "''python AND ()''", THEN conjunct2, THEN conjunct1]
  have e3: "\<exists>msg. fst (parse_query boolean_algebra_parse ''python AND ()'' new_parser)
         = Inl (ValueError (''Invalid Boolean query: '' @ msg))" by blast
  have v3: "fst (parse_query boolean_algebra_parse ''python AND ()'' new_parser)
       = Inl (ValueError ''Invalid Boolean query: empty expression'')" by code_simp
  have tk: "query_tokens ''Python AND (Django OR Flask)''
      = [TSym ''Python'', TAnd, TLpar, TSym ''Django'', TOr, TSym ''Flask'', TRpar]"
    by code_simp
  have "wellformed ([TSym ''Django''] @ TOr # [TSym ''Flask''])"
    by (intro wellformed.disj wellformed.leaf)
  then have "wellformed (TLpar # ([TSym ''Django''] @ TOr # [TSym ''Flask'']) @ [TRpar])"
    by (rule wellformed.paren)
  with wellformed.leaf [of "''Python''"]
  have "wellformed ([TSym ''Python''] @ TAnd # (TLpar # ([TSym ''Django''] @ TOr # [TSym ''Flask'']) @ [TRpar]))"
    by (rule wellformed.conj)
  then have d4: "wellformed (query_tokens ''Python AND (Django OR Flask)'')"
    unfolding tk by simp
  with T [where query = "''Python AND (Django OR Flask)''", THEN conjunct2, THEN conjunct2, THEN conjunct1]
  have e4: "\<exists>tree. fst (parse_query boolean_algebra_parse ''Python AND (Django OR Flask)'' new_parser)
         = Inr tree" by blast
  have v4: "fst (parse_query boolean_algebra_parse ''Python AND (Django OR Flask)'' new_parser)
       = Inr (AND [Symbol ''Python'', OR [Symbol ''Django'', Symbol ''Flask'']])" by code_simp
  show ?thesis by (intro conjI d1 e1 v1 d2 e2 v2 d3 e3 v3 d4 e4 v4)
qed

section \<open>Properties of the normalizer\<close>

lemma is_space_blank [simp]: "is_space (CHR '' '')"
  by (simp add: is_space_def in_range_def)

lemma split_from_token:
  "\<forall>c \<in> set tok. \<not> is_space c \<Longrightarrow> cur @ tok \<noteq> [] \<Longrightarrow> split_from cur tok = [cur @ tok]"
  by (induction tok arbitrary: cur) simp_all

lemma split_from_append_token:
  "tok \<noteq> [] \<Longrightarrow> \<forall>c \<in> set tok. \<not> is_space c \<Longrightarrow>
   split_from cur (s @ CHR '' '' # tok) = split_from cur s @ [tok]"
  by (induction s arbitrary: cur) (simp_all add: split_from_token)

lemma split_from_tokens:
  "x \<in> set (split_from cur s) \<Longrightarrow> \<forall>c \<in> set cur. \<not> is_space c \<Longrightarrow>
   x \<noteq> [] \<and> (\<forall>c \<in> set x. \<not> is_space c)"
proof (induction s arbitrary: cur)
  case Nil
  then show ?case by (simp split: if_splits)
next
  case (Cons c s)
  show ?case
  proof (cases "is_space c")
    case True
    show ?thesis
    proof (cases "cur = []")
      case e: True
      with True Cons.prems(1) have "x \<in> set (split_from [] s)" by simp
      then show ?thesis by (rule Cons.IH) simp
    next
      case False
      with True Cons.prems(1) have "x = cur \<or> x \<in> set (split_from [] s)" by simp
      then show ?thesis
      proof
        assume "x = cur"
        with False Cons.prems(2) show ?thesis by simp
      next
        assume "x \<in> set (split_from [] s)"
        then show ?thesis by (rule Cons.IH) simp
      qed
    qed
  next
    case False
    with Cons.prems(1) have "x \<in> set (split_from (cur @ [c]) s)" by simp
    then show ?thesis using Cons.IH [of "cur @ [c]"] False Cons.prems(2) by simp
  qed
qed

lemma split_ws_tokens:
  "x \<in> set (split_ws s) \<Longrightarrow> x \<noteq> [] \<and> (\<forall>c \<in> set x. \<not> is_space c)"
  unfolding split_ws_def using split_from_tokens [of x "[]" s] by simp

lemma split_ws_foldl_tokens:
  "\<forall>x \<in> set toks. x \<noteq> [] \<and> (\<forall>c \<in> set x. \<not> is_space c) \<Longrightarrow>
   split_ws (foldl (\<lambda>t x. t @ '' '' @ x) s0 toks) = split_ws s0 @ toks"
proof (induction toks arbitrary: s0)
  case Nil
  then show ?case by simp
next
  case (Cons tok toks)
  then have "split_ws (s0 @ '' '' @ tok) = split_ws s0 @ [tok]"
    by (simp add: split_ws_def split_from_append_token)
  with Cons show ?case by simp
qed

lemma inject_bigrams_foldl:
  "inject_bigrams text ws =
     foldl (\<lambda>t x. t @ '' '' @ x) text (map (\<lambda>i. ws ! i @ ws ! (i + 1)) [0 ..< length ws - 1])"
  by (simp add: inject_bigrams_def foldl_map)

lemma inject_halves_foldl:
  "foldl (\<lambda>t tok. if 8 < length tok
                   then (let mid = length tok div 2
                         in t @ '' '' @ take mid tok @ '' '' @ drop mid tok)
                   else t) s0 ws =
     foldl (\<lambda>t x. t @ '' '' @ x) s0
       (concat (map (\<lambda>tok. if 8 < length tok
                            then [take (length tok div 2) tok, drop (length tok div 2) tok]
                            else []) ws))"
  by (induction ws arbitrary: s0) (simp_all add: Let_def)

lemma split_from_dropWhile: "split_from [] (dropWhile is_space s) = split_from [] s"
  by (induction s) simp_all

lemma split_from_collapse: "split_from cur (collapse_ws s) = split_from cur s"
  by (induction s arbitrary: cur rule: collapse_ws.induct) (simp_all add: split_from_dropWhile)

lemma split_from_snoc_space: "is_space c \<Longrightarrow> split_from cur (s @ [c]) = split_from cur s"
  by (induction s arbitrary: cur) simp_all

lemma split_from_drop_trailing:
  "split_from cur (rev (dropWhile is_space (rev s))) = split_from cur s"
  by (induction s rule: rev_induct) (simp_all add: split_from_snoc_space)

lemma split_ws_strip: "split_ws (strip s) = split_ws s"
  by (simp add: split_ws_def strip_def split_from_drop_trailing split_from_dropWhile)

lemma split_ws_collapse: "split_ws (collapse_ws s) = split_ws s"
  by (simp add: split_ws_def split_from_collapse)

text \<open>
  The tokens of the normalized text: the words of the cleaned text, then one merged
  token for each adjacent pair of words, then the two halves of each word longer than 8.
\<close>

lemma normalize_tokens:
  "split_ws (normalize_text text) =
     base_words text
     @ map (\<lambda>i. base_words text ! i @ base_words text ! (i + 1)) [0 ..< length (base_words text) - 1]
     @ concat (map (\<lambda>tok. if 8 < length tok
                            then [take (length tok div 2) tok, drop (length tok div 2) tok]
                            else []) (base_words text))"
proof -
  let ?ws = "base_words text"
  let ?bi = "map (\<lambda>i. ?ws ! i @ ?ws ! (i + 1)) [0 ..< length ?ws - 1]"
  let ?hf = "concat (map (\<lambda>tok. if 8 < length tok
                            then [take (length tok div 2) tok, drop (length tok div 2) tok]
                            else []) ?ws)"
  have tok: "x \<noteq> [] \<and> (\<forall>c \<in> set x. \<not> is_space c)" if "x \<in> set ?ws" for x
    using that split_ws_tokens by (simp add: base_words_def)
  have bi: "\<forall>x \<in> set ?bi. x \<noteq> [] \<and> (\<forall>c \<in> set x. \<not> is_space c)"
  proof
    fix x assume "x \<in> set ?bi"
    then obtain i where i: "i < length ?ws - 1" and x: "x = ?ws ! i @ ?ws ! (i + 1)"
      by auto
    from i have "?ws ! i \<in> set ?ws" "?ws ! (i + 1) \<in> set ?ws" by simp_all
    with tok x show "x \<noteq> [] \<and> (\<forall>c \<in> set x. \<not> is_space c)" by auto
  qed
  have hf: "\<forall>x \<in> set ?hf. x \<noteq> [] \<and> (\<forall>c \<in> set x. \<not> is_space c)"
  proof
    fix x assume "x \<in> set ?hf"
    then obtain w where w: "w \<in> set ?ws" "8 < length w"
      and x: "x = take (length w div 2) w \<or> x = drop (length w div 2) w"
      by (auto split: if_splits)
    from w(2) x have "x \<noteq> []" by auto
    moreover from x have "set x \<subseteq> set w" by (auto dest: in_set_takeD in_set_dropD)
    ultimately show "x \<noteq> [] \<and> (\<forall>c \<in> set x. \<not> is_space c)" using tok [OF w(1)] by auto
  qed
  have "split_ws (normalize_text text) =
      split_ws (foldl (\<lambda>t x. t @ '' '' @ x) (foldl (\<lambda>t x. t @ '' '' @ x) (clean text) ?bi) ?hf)"
    by (simp add: normalize_text_def Let_def split_ws_strip split_ws_collapse inject_halves_def
        inject_halves_foldl inject_bigrams_foldl base_words_def del: upt_Suc)
  also have "\<dots> = split_ws (foldl (\<lambda>t x. t @ '' '' @ x) (clean text) ?bi) @ ?hf"
    by (rule split_ws_foldl_tokens [OF hf])
  also have "\<dots> = (split_ws (clean text) @ ?bi) @ ?hf"
    by (simp only: split_ws_foldl_tokens [OF bi])
  finally show ?thesis by (simp add: base_words_def)
qed

text \<open>
  C5: normalizing \<^verbatim>\<open>HuggingFace\<close> gives \<^verbatim>\<open>hugging face huggingface\<close>, which holds both
  \<^verbatim>\<open>hugging face\<close>, the result of the CamelCase split and the case fold, and
  \<^verbatim>\<open>huggingface\<close>, which the bigram loop appends.
\<close>

theorem normalize_huggingface:
  "lower (camel_split ''HuggingFace'') = ''hugging face''
   \<and> base_words ''HuggingFace'' = [''hugging'', ''face'']
   \<and> inject_bigrams (clean ''HuggingFace'') (base_words ''HuggingFace'')
       = ''hugging face huggingface''
   \<and> normalize_text ''HuggingFace'' = ''hugging face huggingface''
   \<and> contains ''hugging face'' (normalize_text ''HuggingFace'')
   \<and> contains ''huggingface'' (normalize_text ''HuggingFace'')"
  by code_simp

text \<open>
  C6: after the words and the bigrams, the tokens of the normalized text are, for each
  word in order, nothing when the word has at most 8 characters and otherwise exactly
  two fragments: its first \<open>len div 2\<close> characters and its remaining
  \<open>len - len div 2\<close> characters, whose concatenation is the word. One pass of the loop
  on a word longer than 8 appends these two fragments, each after a space, and a pass
  on a shorter word appends nothing.
\<close>

theorem half_split_fragments:
  "drop (length (base_words text0) + (length (base_words text0) - 1)) (split_ws (normalize_text text0))
     = concat (map (\<lambda>tok. if 8 < length tok
                            then [take (length tok div 2) tok, drop (length tok div 2) tok]
                            else []) (base_words text0))
   \<and> (8 < length tok \<longrightarrow>
        inject_halves s [tok]
          = s @ '' '' @ take (length tok div 2) tok @ '' '' @ drop (length tok div 2) tok
        \<and> length (take (length tok div 2) tok) = length tok div 2
        \<and> length (drop (length tok div 2) tok) = length tok - length tok div 2
        \<and> take (length tok div 2) tok @ drop (length tok div 2) tok = tok)
   \<and> (\<not> 8 < length tok \<longrightarrow> inject_halves s [tok] = s)"
proof -
  have "drop (length (base_words text0) + (length (base_words text0) - 1))
          (split_ws (normalize_text text0))
     = concat (map (\<lambda>tok. if 8 < length tok
                            then [take (length tok div 2) tok, drop (length tok div 2) tok]
                            else []) (base_words text0))"
    by (simp add: normalize_tokens del: upt_Suc)
  moreover have "8 < length tok \<Longrightarrow> inject_halves s [tok]
          = s @ '' '' @ take (length tok div 2) tok @ '' '' @ drop (length tok div 2) tok"
    by (simp add: inject_halves_def Let_def)
  moreover have "length (take (length tok div 2) tok) = length tok div 2" by simp
  moreover have "length (drop (length tok div 2) tok) = length tok - length tok div 2" by simp
  moreover have "take (length tok div 2) tok @ drop (length tok div 2) tok = tok" by simp
  moreover have "\<not> 8 < length tok \<Longrightarrow> inject_halves s [tok] = s"
    by (simp add: inject_halves_def)
  ultimately show ?thesis by blast
qed

theorem half_split_fragments_witness:
  "base_words ''Tensorflow2 python'' = [''tensorflow2'', ''python'']
   \<and> drop 3 (split_ws (normalize_text ''Tensorflow2 python'')) = [''tenso'', ''rflow2'']
   \<and> inject_halves ''x'' [''tensorflow2''] = ''x tenso rflow2''
   \<and> length ''tenso'' = length ''tensorflow2'' div 2
   \<and> length ''rflow2'' = length ''tensorflow2'' - length ''tensorflow2'' div 2
   \<and> ''tenso'' @ ''rflow2'' = ''tensorflow2''
   \<and> inject_halves ''x'' [''python''] = ''x''"
proof -
  have b: "base_words ''Tensorflow2 python'' = [''tensorflow2'', ''python'']" by code_simp
  note T = half_split_fragments [of "''Tensorflow2 python''" "''tensorflow2''" "''x''", unfolded b]
  note U = half_split_fragments [of "''Tensorflow2 python''" "''python''" "''x''", unfolded b]
  from T have "drop 3 (split_ws (normalize_text ''Tensorflow2 python'')) = [''tenso'', ''rflow2'']"
    by (simp add: numeral_3_eq_3)
  moreover from T have "inject_halves ''x'' [''tensorflow2''] = ''x tenso rflow2''" by simp
  moreover from U have "inject_halves ''x'' [''python''] = ''x''" by simp
  ultimately show ?thesis using b by simp
qed

text \<open>
  C10: the token sequence of the normalized text is the sequence of words of the
  cleaned text (the text after the CamelCase split, the case fold, the noise removal,
  the phrase duplication and the symbol strip), in their order and unchanged, followed
  by the bigram tokens and then by the half-split fragments.
\<close>

theorem normalize_appends_only:
  "split_ws (normalize_text text0) =
     base_words text0
     @ map (\<lambda>i. base_words text0 ! i @ base_words text0 ! (i + 1))
         [0 ..< length (base_words text0) - 1]
     @ concat (map (\<lambda>tok. if 8 < length tok
                            then [take (length tok div 2) tok, drop (length tok div 2) tok]
                            else []) (base_words text0))
   \<and> take (length (base_words text0)) (split_ws (normalize_text text0)) = base_words text0"
  by (simp add: normalize_tokens del: upt_Suc)

theorem normalize_appends_only_witness:
  "base_words ''MachineLearning at scale.'' = [''machine'', ''learning'', ''at'', ''scale'']
   \<and> split_ws (normalize_text ''MachineLearning at scale.'')
     = [''machine'', ''learning'', ''at'', ''scale'',
        ''machinelearning'', ''learningat'', ''atscale'']"
proof -
  have b: "base_words ''MachineLearning at scale.'' = [''machine'', ''learning'', ''at'', ''scale'']"
    by code_simp
  have u: "[0 ..< length [''machine'', ''learning'', ''at'', ''scale''] - 1] = [0, 1, 2]"
    by code_simp
  from normalize_appends_only [of "''MachineLearning at scale.''", unfolded b u]
  have "split_ws (normalize_text ''MachineLearning at scale.'')
     = [''machine'', ''learning'', ''at'', ''scale'',
        ''machinelearning'', ''learningat'', ''atscale'']"
    by simp
  with b show ?thesis by simp
qed

end
